theory Spec2Isabelle
  imports Complex_Main "HOL-Library.Multiset" "HOL-Library.List_Lexorder" "HOL-Library.Char_ord"
    "HOL-Library.Product_Lexorder" "HOL-Library.Word"
begin

section \<open>Python and library primitives used by \<open>product_search.py\<close>\<close>

text \<open>
  Exceptions are values. Only the class of an exception matters to the code under study:
  the loader re-raises whatever it catches, the search catches every \<open>Exception\<close>.
\<close>

datatype exn = DatabaseError | ProviderError | ValueError | AxisError | IndexError

subsection \<open>Strings\<close>

text \<open>
  A Python \<open>str\<close> is modelled as a \<open>string\<close>, each \<open>char\<close> standing for the code point
  of the same number (code points below 256). \<open>str.isspace\<close> holds in that range for
  TAB, LF, VT, FF, CR, the separators FS GS RS US, the space, NEL and the no-break space.
\<close>

definition isspace :: "char \<Rightarrow> bool" where
  "isspace c \<longleftrightarrow> (of_char c :: nat) \<in> {9, 10, 11, 12, 13, 28, 29, 30, 31, 32, 133, 160}"

definition lstrip :: "string \<Rightarrow> string" where
  "lstrip s = dropWhile isspace s"

definition rstrip :: "string \<Rightarrow> string" where
  "rstrip s = rev (dropWhile isspace (rev s))"

definition strip :: "string \<Rightarrow> string" where
  "strip s = rstrip (lstrip s)"

text \<open>
  The tokenizer of \<open>rapidfuzz\<close>: the maximal runs of characters that are not spaces, in
  order. For a string of one-byte characters its \<open>is_space\<close> holds for TAB, LF, VT, FF,
  CR, FS, GS, RS, US and the space only; NEL and the no-break space are not separators.
\<close>

definition is_space :: "char \<Rightarrow> bool" where
  "is_space c \<longleftrightarrow> (of_char c :: nat) \<in> {9, 10, 11, 12, 13, 28, 29, 30, 31, 32}"

fun split_from :: "string \<Rightarrow> string \<Rightarrow> string list" where
  "split_from cur [] = (if cur = [] then [] else [cur])"
| "split_from cur (c # cs) =
     (if is_space c then (if cur = [] then split_from [] cs else cur # split_from [] cs)
      else split_from (cur @ [c]) cs)"

definition split :: "string \<Rightarrow> string list" where
  "split s = split_from [] s"

text \<open>\<open>" ".join(tokens)\<close>.\<close>

fun join_space :: "string list \<Rightarrow> string" where
  "join_space [] = []"
| "join_space [t] = t"
| "join_space (t # ts) = t @ '' '' @ join_space ts"

subsection \<open>Slices and rounding\<close>

text \<open>
  \<open>xs[:k]\<close> for an integer \<open>k\<close>: the first \<open>k\<close> elements when \<open>k\<close> is not negative,
  all but the last \<open>-k\<close> elements when it is.
\<close>

definition slice_to :: "int \<Rightarrow> 'a list \<Rightarrow> 'a list" where
  "slice_to k xs = (if 0 \<le> k then take (nat k) xs else take (length xs - nat (- k)) xs)"

text \<open>
  Floating-point numbers are idealised as reals. \<open>round(x, n)\<close> rounds \<open>x * 10 ^ n\<close> to the
  nearest integer, a tie going to the even neighbour, and scales back.
\<close>

definition rint :: "real \<Rightarrow> int" where
  "rint x = (let f = \<lfloor>x\<rfloor>; d = x - of_int f
             in if d < 1 / 2 then f else if 1 / 2 < d then f + 1
                else if even f then f else f + 1)"

definition round_to :: "real \<Rightarrow> nat \<Rightarrow> real" where
  "round_to x n = of_int (rint (x * 10 ^ n)) / 10 ^ n"

section \<open>\<open>difflib\<close>: \<open>SequenceMatcher\<close> and \<open>get_close_matches\<close>\<close>

text \<open>
  \<open>_correct_input\<close> calls \<open>difflib.get_close_matches(input_user, descriptions, n=1, cutoff=0.6)\<close>.
  The matcher is created with \<open>isjunk=None\<close> and \<open>autojunk=True\<close>; \<open>set_seq2(word)\<close> makes
  the query the sequence \<open>b\<close>, \<open>set_seq1(x)\<close> makes each description the sequence \<open>a\<close>.
\<close>

definition calculate_ratio :: "nat \<Rightarrow> nat \<Rightarrow> real" where
  "calculate_ratio matches len = (if len \<noteq> 0 then 2 * real matches / real len else 1)"

text \<open>
  \<open>__chain_b\<close>: \<open>b2j\<close> maps an element to the increasing list of its positions in \<open>b\<close>.
  No element is junk. When \<open>b\<close> has at least 200 elements, an element occurring more than
  \<open>len(b) // 100 + 1\<close> times is popular and has no entry.
\<close>

definition popular :: "'a list \<Rightarrow> 'a \<Rightarrow> bool" where
  "popular b elt \<longleftrightarrow> 200 \<le> length b \<and> length b div 100 + 1 < count_list b elt"

definition b2j_get :: "'a list \<Rightarrow> 'a \<Rightarrow> nat list" where
  "b2j_get b elt = (if popular b elt then [] else filter (\<lambda>j. b ! j = elt) [0..<length b])"

text \<open>
  \<open>find_longest_match\<close>, inner loop over the positions \<open>j\<close> of \<open>a[i]\<close> in \<open>b\<close>. The
  dictionary \<open>j2len\<close> is a function that is 0 where the dictionary has no key, so that
  \<open>j2len.get(j-1, 0)\<close> is \<open>j2len (j - 1)\<close> for \<open>j > 0\<close> and 0 for \<open>j = 0\<close>. The new block
  starts at \<open>i - k + 1\<close>, written \<open>i + 1 - k\<close> on naturals.
\<close>

type_synonym best = "nat \<times> nat \<times> nat"

fun flm_inner :: "nat \<Rightarrow> nat \<Rightarrow> nat \<Rightarrow> (nat \<Rightarrow> nat) \<Rightarrow> nat list \<Rightarrow> (nat \<Rightarrow> nat) \<times> best
    \<Rightarrow> (nat \<Rightarrow> nat) \<times> best" where
  "flm_inner blo bhi i j2len [] st = st"
| "flm_inner blo bhi i j2len (j # js) (newj2len, besti, bestj, bestsize) =
     (if j < blo then flm_inner blo bhi i j2len js (newj2len, besti, bestj, bestsize)
      else if bhi \<le> j then (newj2len, besti, bestj, bestsize)
      else (let k = (if j = 0 then 0 else j2len (j - 1)) + 1
            in flm_inner blo bhi i j2len js
                 (newj2len(j := k),
                  if bestsize < k then (i + 1 - k, j + 1 - k, k) else (besti, bestj, bestsize))))"

fun flm_outer :: "'a list \<Rightarrow> 'a list \<Rightarrow> nat \<Rightarrow> nat \<Rightarrow> nat list \<Rightarrow> (nat \<Rightarrow> nat) \<times> best \<Rightarrow> best" where
  "flm_outer a b blo bhi [] (j2len, bst) = bst"
| "flm_outer a b blo bhi (i # is) (j2len, bst) =
     flm_outer a b blo bhi is (flm_inner blo bhi i j2len (b2j_get b (a ! i)) (\<lambda>_. 0, bst))"

text \<open>
  The two loops that extend the best block over equal neighbours. The two loops after
  them extend over junk only, and the junk set is empty: they never run.
\<close>

function extend_left :: "'a list \<Rightarrow> 'a list \<Rightarrow> nat \<Rightarrow> nat \<Rightarrow> best \<Rightarrow> best" where
  "extend_left a b alo blo (besti, bestj, bestsize) =
     (if alo < besti \<and> blo < bestj \<and> a ! (besti - 1) = b ! (bestj - 1)
      then extend_left a b alo blo (besti - 1, bestj - 1, bestsize + 1)
      else (besti, bestj, bestsize))"
  by pat_completeness auto
termination
  by (relation "measure (\<lambda>(a, b, alo, blo, besti, bestj, bestsize). besti)") auto

function extend_right :: "'a list \<Rightarrow> 'a list \<Rightarrow> nat \<Rightarrow> nat \<Rightarrow> best \<Rightarrow> best" where
  "extend_right a b ahi bhi (besti, bestj, bestsize) =
     (if besti + bestsize < ahi \<and> bestj + bestsize < bhi
         \<and> a ! (besti + bestsize) = b ! (bestj + bestsize)
      then extend_right a b ahi bhi (besti, bestj, bestsize + 1)
      else (besti, bestj, bestsize))"
  by pat_completeness auto
termination
  by (relation "measure (\<lambda>(a, b, ahi, bhi, besti, bestj, bestsize). ahi - (besti + bestsize))") auto

definition find_longest_match :: "'a list \<Rightarrow> 'a list \<Rightarrow> nat \<Rightarrow> nat \<Rightarrow> nat \<Rightarrow> nat \<Rightarrow> best" where
  "find_longest_match a b alo ahi blo bhi =
     extend_right a b ahi bhi
       (extend_left a b alo blo
          (flm_outer a b blo bhi [alo..<ahi] (\<lambda>_. 0, alo, blo, 0)))"

declare extend_left.simps [simp del] extend_right.simps [simp del]

text \<open>
  What \<open>find_longest_match\<close> returns: a block inside the two windows whose elements
  agree pairwise. The loop invariants: \<open>len_inv\<close> for the dictionary of the lengths of
  the matches that end at \<open>a[e-1]\<close>, \<open>best_inv\<close> for the best block so far.
\<close>

definition len_inv :: "'a list \<Rightarrow> 'a list \<Rightarrow> nat \<Rightarrow> nat \<Rightarrow> nat \<Rightarrow> nat \<Rightarrow> (nat \<Rightarrow> nat) \<Rightarrow> bool" where
  "len_inv a b blo bhi e m f \<longleftrightarrow>
     (\<forall>j. f j \<le> m) \<and>
     (\<forall>j. 0 < f j \<longrightarrow> j < bhi \<and> blo \<le> j \<and> f j \<le> j + 1 - blo \<and> f j \<le> e
           \<and> (\<forall>t<f j. a ! (e - 1 - t) = b ! (j - t)))"

definition best_inv :: "'a list \<Rightarrow> 'a list \<Rightarrow> nat \<Rightarrow> nat \<Rightarrow> nat \<Rightarrow> nat \<Rightarrow> best \<Rightarrow> bool" where
  "best_inv a b alo blo bhi e bst \<longleftrightarrow>
     (case bst of (bi, bj, bk) \<Rightarrow>
        alo \<le> bi \<and> blo \<le> bj \<and> (bk \<noteq> 0 \<longrightarrow> bi + bk \<le> e \<and> bj + bk \<le> bhi)
        \<and> (bk = 0 \<longrightarrow> bi = alo \<and> bj = blo)
        \<and> (\<forall>t<bk. a ! (bi + t) = b ! (bj + t)))"

lemma len_inv_zero: "len_inv a b blo bhi e m (\<lambda>_. 0)"
  by (simp add: len_inv_def)

lemma best_inv_mono: "best_inv a b alo blo bhi e bst \<Longrightarrow> e \<le> e' \<Longrightarrow> best_inv a b alo blo bhi e' bst"
  by (auto simp: best_inv_def)

lemma new_len:
  assumes prev: "len_inv a b blo bhi i (i - alo) j2len"
    and ai: "alo \<le> i" and jb: "blo \<le> j" "j < bhi" and eq: "b ! j = a ! i"
    and k: "k = (if j = 0 then 0 else j2len (j - 1)) + 1"
  shows "k \<le> i + 1 - alo \<and> k \<le> j + 1 - blo \<and> k \<le> i + 1 \<and> (\<forall>t<k. a ! (i - t) = b ! (j - t))"
proof (cases "j = 0 \<or> j2len (j - 1) = 0")
  case True
  then have "k = 1" using k by auto
  then show ?thesis using ai jb eq by auto
next
  case False
  then have j0: "0 < j" and m0: "0 < j2len (j - 1)" by auto
  define m where "m = j2len (j - 1)"
  have km: "k = m + 1" using k j0 by (simp add: m_def)
  from prev m0 have b1: "m \<le> i - alo" and b2: "blo \<le> j - 1" and b3: "m \<le> (j - 1) + 1 - blo" and b4: "m \<le> i"
    and b5: "\<forall>t<m. a ! (i - 1 - t) = b ! (j - 1 - t)"
    unfolding len_inv_def m_def by blast+
  have "a ! (i - t) = b ! (j - t)" if "t < k" for t
  proof (cases t)
    case 0
    then show ?thesis using eq by simp
  next
    case (Suc t')
    then have "t' < m" using that km by simp
    then have "a ! (i - 1 - t') = b ! (j - 1 - t')" using b5 by blast
    then show ?thesis using Suc by simp
  qed
  moreover have "0 < m" using m0 by (simp add: m_def)
  ultimately show ?thesis using km b1 b2 b3 b4 ai j0 by auto
qed

lemma flm_inner_inv:
  assumes prev: "len_inv a b blo bhi i (i - alo) j2len" and ai: "alo \<le> i"
    and js: "\<forall>j\<in>set js. b ! j = a ! i"
    and st: "len_inv a b blo bhi (i + 1) (i + 1 - alo) nj" "best_inv a b alo blo bhi (i + 1) bst"
    and res: "flm_inner blo bhi i j2len js (nj, bst) = (nj', bst')"
  shows "len_inv a b blo bhi (i + 1) (i + 1 - alo) nj' \<and> best_inv a b alo blo bhi (i + 1) bst'"
  using js st res
proof (induction js arbitrary: nj bst)
  case Nil
  then show ?case by simp
next
  case (Cons j js)
  obtain bi bj bk where bst: "bst = (bi, bj, bk)" by (cases bst)
  show ?case
  proof (cases "j < blo")
    case True
    then show ?thesis using Cons bst by simp
  next
    case lo: False
    show ?thesis
    proof (cases "bhi \<le> j")
      case True
      then show ?thesis using Cons lo bst by simp
    next
      case hi: False
      define k where "k = (if j = 0 then 0 else j2len (j - 1)) + 1"
      have eq: "b ! j = a ! i" using Cons.prems(1) by simp
      have kb: "k \<le> i + 1 - alo" "k \<le> j + 1 - blo" "k \<le> i + 1" "\<forall>t<k. a ! (i - t) = b ! (j - t)"
        using new_len[OF prev ai _ _ eq k_def] lo hi by auto
      have kpos: "0 < k" by (simp add: k_def)
      have nj': "len_inv a b blo bhi (i + 1) (i + 1 - alo) (nj(j := k))"
        using Cons.prems(2) kb lo hi unfolding len_inv_def by auto
      have bst': "best_inv a b alo blo bhi (i + 1)
                   (if bk < k then (i + 1 - k, j + 1 - k, k) else (bi, bj, bk))"
      proof (cases "bk < k")
        case True
        have "a ! (i + 1 - k + t) = b ! (j + 1 - k + t)" if "t < k" for t
        proof -
          have "k - 1 - t < k" using that by simp
          then have "a ! (i - (k - 1 - t)) = b ! (j - (k - 1 - t))" using kb(4) by blast
          moreover have "i - (k - 1 - t) = i + 1 - k + t" using that kb(3) by simp
          moreover have "j - (k - 1 - t) = j + 1 - k + t" using that kb(2) lo by simp
          ultimately show ?thesis by (simp only:)
        qed
        then show ?thesis using True kb lo hi ai unfolding best_inv_def by auto
      next
        case False
        then show ?thesis using Cons.prems(3) bst by simp
      qed
      have "flm_inner blo bhi i j2len js
              (nj(j := k), if bk < k then (i + 1 - k, j + 1 - k, k) else (bi, bj, bk)) = (nj', bst')"
      proof -
        have step: "flm_inner blo bhi i j2len (j # js) (nj, bi, bj, bk) =
            flm_inner blo bhi i j2len js
              (nj(j := k), if bk < k then (i + 1 - k, j + 1 - k, k) else (bi, bj, bk))"
          unfolding k_def using lo hi by (simp add: Let_def)
        show ?thesis using Cons.prems(4) by (simp only: bst step)
      qed
      from Cons.IH[OF _ nj' bst' this] Cons.prems(1) show ?thesis by simp
    qed
  qed
qed

lemma b2j_get_eq: "j \<in> set (b2j_get b x) \<Longrightarrow> b ! j = x"
  by (auto simp: b2j_get_def split: if_splits)

lemma flm_outer_inv:
  assumes "len_inv a b blo bhi i (i - alo) j2len" "alo \<le> i" "best_inv a b alo blo bhi i bst"
  shows "best_inv a b alo blo bhi (max i ahi) (flm_outer a b blo bhi [i..<ahi] (j2len, bst))"
  using assms
proof (induction "ahi - i" arbitrary: i j2len bst)
  case 0
  then show ?case by simp
next
  case (Suc n)
  then have lt: "i < ahi" by simp
  obtain nj' bst' where r: "flm_inner blo bhi i j2len (b2j_get b (a ! i)) (\<lambda>_. 0, bst) = (nj', bst')"
    by (cases "flm_inner blo bhi i j2len (b2j_get b (a ! i)) (\<lambda>_. 0, bst)")
  have "len_inv a b blo bhi (i + 1) (i + 1 - alo) nj' \<and> best_inv a b alo blo bhi (i + 1) bst'"
    by (rule flm_inner_inv[OF Suc.prems(1) Suc.prems(2) _ len_inv_zero _ r])
       (auto simp: b2j_get_eq intro: best_inv_mono[OF Suc.prems(3)])
  then have "best_inv a b alo blo bhi (max (Suc i) ahi) (flm_outer a b blo bhi [Suc i..<ahi] (nj', bst'))"
    using Suc.hyps(1)[of "Suc i" nj' bst'] Suc.hyps(2) Suc.prems(2) by simp
  then show ?case using lt r by (simp add: upt_conv_Cons max_def)
qed

lemma extend_left_inv:
  "best_inv a b alo blo bhi e bst \<Longrightarrow> best_inv a b alo blo bhi e (extend_left a b alo blo bst)"
proof (induction a b alo blo bst rule: extend_left.induct)
  case (1 a b alo blo besti bestj bestsize)
  show ?case
  proof (cases "alo < besti \<and> blo < bestj \<and> a ! (besti - 1) = b ! (bestj - 1)")
    case True
    have "a ! (besti - 1 + t) = b ! (bestj - 1 + t)" if "t < bestsize + 1" for t
    proof (cases t)
      case 0
      then show ?thesis using True by simp
    next
      case (Suc t')
      then have "t' < bestsize" using that by simp
      then have "a ! (besti + t') = b ! (bestj + t')" using "1.prems" by (simp add: best_inv_def)
      then show ?thesis using Suc True by simp
    qed
    then have "best_inv a b alo blo bhi e (besti - 1, bestj - 1, bestsize + 1)"
      using "1.prems" True by (auto simp: best_inv_def)
    then show ?thesis using "1.IH" True by (subst extend_left.simps) simp
  next
    case False
    then show ?thesis using "1.prems" by (subst extend_left.simps) auto
  qed
qed


lemma extend_right_inv:
  "best_inv a b alo blo bhi ahi bst \<Longrightarrow> best_inv a b alo blo bhi ahi (extend_right a b ahi bhi bst)"
proof (induction a b ahi bhi bst rule: extend_right.induct)
  case (1 a b ahi bhi besti bestj bestsize)
  show ?case
  proof (cases "besti + bestsize < ahi \<and> bestj + bestsize < bhi
         \<and> a ! (besti + bestsize) = b ! (bestj + bestsize)")
    case True
    have "a ! (besti + t) = b ! (bestj + t)" if "t < bestsize + 1" for t
    proof (cases "t = bestsize")
      case True
      then show ?thesis using \<open>besti + bestsize < ahi \<and> _\<close> by simp
    next
      case False
      then have "t < bestsize" using that by simp
      then show ?thesis using "1.prems" by (simp add: best_inv_def)
    qed
    then have "best_inv a b alo blo bhi ahi (besti, bestj, bestsize + 1)"
      using "1.prems" True by (auto simp: best_inv_def)
    then show ?thesis using "1.IH" True by (subst extend_right.simps) simp
  next
    case False
    then show ?thesis using "1.prems" by (subst extend_right.simps) auto
  qed
qed

lemma find_longest_match_inv:
  "best_inv a b alo blo bhi ahi (find_longest_match a b alo ahi blo bhi)"
proof (cases "alo \<le> ahi")
  case True
  have "best_inv a b alo blo bhi alo (alo, blo, 0)" by (simp add: best_inv_def)
  then have "best_inv a b alo blo bhi (max alo ahi) (flm_outer a b blo bhi [alo..<ahi] (\<lambda>_. 0, alo, blo, 0))"
    by (intro flm_outer_inv) (simp_all add: len_inv_zero)
  then have "best_inv a b alo blo bhi ahi
     (extend_left a b alo blo (flm_outer a b blo bhi [alo..<ahi] (\<lambda>_. 0, alo, blo, 0)))"
    using True by (simp add: max_def extend_left_inv)
  then show ?thesis
    unfolding find_longest_match_def by (rule extend_right_inv)
next
  case False
  then have "find_longest_match a b alo ahi blo bhi = (alo, blo, 0)"
    by (simp add: find_longest_match_def extend_left.simps extend_right.simps)
  then show ?thesis by (simp add: best_inv_def)
qed

text \<open>
  \<open>get_matching_blocks\<close>. The Python list \<open>queue\<close> is used as a stack (\<open>append\<close>,
  \<open>pop\<close>); the model keeps its last element first. The loop ends because each block
  found is not empty and lies inside the window it was searched in.
\<close>

type_synonym window = "nat \<times> nat \<times> nat \<times> nat"

definition window_weight :: "window \<Rightarrow> nat" where
  "window_weight w = (case w of (alo, ahi, blo, bhi) \<Rightarrow> 2 * (ahi - alo) + 1)"

function matching_blocks_loop :: "'a list \<Rightarrow> 'a list \<Rightarrow> window list \<Rightarrow> best list \<Rightarrow> best list" where
  "matching_blocks_loop a b [] matching_blocks = matching_blocks"
| "matching_blocks_loop a b ((alo, ahi, blo, bhi) # queue) matching_blocks =
     (case find_longest_match a b alo ahi blo bhi of (i, j, k) \<Rightarrow>
        if k \<noteq> 0 then
          matching_blocks_loop a b
            ((if i + k < ahi \<and> j + k < bhi then [(i + k, ahi, j + k, bhi)] else []) @
             (if alo < i \<and> blo < j then [(alo, i, blo, j)] else []) @ queue)
            (matching_blocks @ [(i, j, k)])
        else matching_blocks_loop a b queue matching_blocks)"
  by pat_completeness auto
termination
proof (relation "measure (\<lambda>(a, b, queue, blocks). sum_list (map window_weight queue))", goal_cases)
  case 1
  show ?case by simp
next
  case (2 a b alo ahi blo bhi queue matching_blocks i y j k)
  have "best_inv a b alo blo bhi ahi (i, j, k)"
    using find_longest_match_inv[of a b alo blo bhi ahi] 2 by simp
  then have "alo \<le> i" "i + k \<le> ahi"
    using 2 by (auto simp: best_inv_def)
  then show ?case
    using 2 by (auto simp: window_weight_def)
next
  case (3 a b alo ahi blo bhi queue matching_blocks i y j k)
  show ?case by (simp add: window_weight_def)
qed

declare matching_blocks_loop.simps [simp del]

text \<open>
  After the loop: \<open>matching_blocks.sort()\<close>, then adjacent blocks are merged while
  \<open>(i1, j1, k1)\<close> runs over the sorted list, then the sentinel \<open>(la, lb, 0)\<close> is appended.
\<close>

fun collapse :: "best \<Rightarrow> best list \<Rightarrow> best list" where
  "collapse (i1, j1, k1) [] = (if k1 \<noteq> 0 then [(i1, j1, k1)] else [])"
| "collapse (i1, j1, k1) ((i2, j2, k2) # rest) =
     (if i1 + k1 = i2 \<and> j1 + k1 = j2 then collapse (i1, j1, k1 + k2) rest
      else (if k1 \<noteq> 0 then [(i1, j1, k1)] else []) @ collapse (i2, j2, k2) rest)"

definition get_matching_blocks :: "'a list \<Rightarrow> 'a list \<Rightarrow> best list" where
  "get_matching_blocks a b =
     (let la = length a; lb = length b;
          matching_blocks = sort (matching_blocks_loop a b [(0, la, 0, lb)] [])
      in collapse (0, 0, 0) matching_blocks @ [(la, lb, 0)])"

definition ratio :: "'a list \<Rightarrow> 'a list \<Rightarrow> real" where
  "ratio a b =
     (let matches = sum_list (map (\<lambda>triple. snd (snd triple)) (get_matching_blocks a b))
      in calculate_ratio matches (length a + length b))"

text \<open>
  \<open>quick_ratio\<close>: \<open>fullbcount\<close> counts the elements of \<open>b\<close>; \<open>avail\<close> records, for the
  elements of \<open>a\<close> seen so far, how many occurrences in \<open>b\<close> are still unmatched (it may
  go below zero).
\<close>

fun quick_ratio_loop :: "('a \<Rightarrow> nat) \<Rightarrow> 'a list \<Rightarrow> ('a \<rightharpoonup> int) \<Rightarrow> nat \<Rightarrow> nat" where
  "quick_ratio_loop fullbcount [] avail matches = matches"
| "quick_ratio_loop fullbcount (elt # rest) avail matches =
     (let numb = (case avail elt of Some n \<Rightarrow> n | None \<Rightarrow> int (fullbcount elt))
      in quick_ratio_loop fullbcount rest (avail(elt \<mapsto> numb - 1))
           (if 0 < numb then matches + 1 else matches))"

definition quick_ratio :: "'a list \<Rightarrow> 'a list \<Rightarrow> real" where
  "quick_ratio a b =
     calculate_ratio (quick_ratio_loop (count_list b) a Map.empty 0) (length a + length b)"

definition real_quick_ratio :: "'a list \<Rightarrow> 'a list \<Rightarrow> real" where
  "real_quick_ratio a b =
     (let la = length a; lb = length b in calculate_ratio (min la lb) (la + lb))"

text \<open>
  \<open>get_close_matches(word, possibilities, n=1, cutoff=0.6)\<close>. The arguments pass both
  range checks. The candidates are the pairs \<open>(score, x)\<close>; \<open>heapq.nlargest(1, result)\<close>
  is \<open>max(result)\<close> for a non-empty list: the first element that no later element
  exceeds, tuples being compared by score first and by string second.
\<close>

definition cutoff :: real where
  "cutoff = 6 / 10"

definition close_candidates :: "string \<Rightarrow> string list \<Rightarrow> (real \<times> string) list" where
  "close_candidates word possibilities =
     [(ratio x word, x). x \<leftarrow> possibilities,
        cutoff \<le> real_quick_ratio x word \<and> cutoff \<le> quick_ratio x word \<and> cutoff \<le> ratio x word]"

definition tuple_gt :: "real \<times> string \<Rightarrow> real \<times> string \<Rightarrow> bool" where
  "tuple_gt p q = (if fst p \<noteq> fst q then fst q < fst p else snd q < snd p)"

fun max_from :: "real \<times> string \<Rightarrow> (real \<times> string) list \<Rightarrow> real \<times> string" where
  "max_from m [] = m"
| "max_from m (item # rest) = max_from (if tuple_gt item m then item else m) rest"

definition nlargest1 :: "(real \<times> string) list \<Rightarrow> (real \<times> string) list" where
  "nlargest1 result = (case result of [] \<Rightarrow> [] | item # rest \<Rightarrow> [max_from item rest])"

definition get_close_matches :: "string \<Rightarrow> string list \<Rightarrow> string list" where
  "get_close_matches word possibilities = map snd (nlargest1 (close_candidates word possibilities))"

section \<open>\<open>rapidfuzz\<close>: \<open>fuzz.token_sort_ratio\<close>\<close>

text \<open>
  \<open>fuzz.token_sort_ratio(s1, s2)\<close> with its default arguments (no preprocessing): both
  strings are split by the tokenizer, the tokens sorted and joined by single spaces, and the
  two results compared by \<open>fuzz.ratio\<close>, the normalised Indel similarity scaled to 100:
  with \<open>lcs\<close> the length of a longest common subsequence, the Indel distance is
  \<open>len1 + len2 - 2 * lcs\<close>, normalised by \<open>len1 + len2\<close> (0 when both are empty).
\<close>

fun lcs_len :: "'a list \<Rightarrow> 'a list \<Rightarrow> nat" where
  "lcs_len [] ys = 0"
| "lcs_len (x # xs) [] = 0"
| "lcs_len (x # xs) (y # ys) =
     (if x = y then Suc (lcs_len xs ys) else max (lcs_len (x # xs) ys) (lcs_len xs (y # ys)))"

definition indel_distance :: "'a list \<Rightarrow> 'a list \<Rightarrow> nat" where
  "indel_distance s1 s2 = length s1 + length s2 - 2 * lcs_len s1 s2"

definition indel_normalized_distance :: "'a list \<Rightarrow> 'a list \<Rightarrow> real" where
  "indel_normalized_distance s1 s2 =
     (let maximum = length s1 + length s2
      in if maximum \<noteq> 0 then real (indel_distance s1 s2) / real maximum else 0)"

definition fuzz_ratio :: "'a list \<Rightarrow> 'a list \<Rightarrow> real" where
  "fuzz_ratio s1 s2 = (1 - indel_normalized_distance s1 s2) * 100"

definition token_sort_ratio :: "string \<Rightarrow> string \<Rightarrow> real" where
  "token_sort_ratio s1 s2 =
     fuzz_ratio (join_space (sort (split s1))) (join_space (sort (split s2)))"

section \<open>\<open>numpy\<close>: distances and \<open>argsort\<close>\<close>

text \<open>
  \<open>self.vectors\<close> is \<open>np.array\<close> of the list of row vectors: the empty list gives a
  one-dimensional array of shape \<open>(0,)\<close>, \<open>n > 0\<close> rows of one length \<open>d\<close> give a matrix
  of shape \<open>(n, d)\<close>, rows of different lengths are refused with a \<open>ValueError\<close>
  (NumPy 1.24 and later). The model keeps the list of rows.
\<close>

definition np_array :: "real list list \<Rightarrow> exn + real list list" where
  "np_array rows = (if \<forall>row\<in>set rows. length row = length (hd rows) then Inr rows else Inl ValueError)"

text \<open>\<open>np.linalg.norm\<close> of one row: the square root of the sum of the squares.\<close>

definition linalg_norm :: "real list \<Rightarrow> real" where
  "linalg_norm v = sqrt (sum_list (map (\<lambda>x. x * x) v))"

text \<open>
  \<open>np.linalg.norm(self.vectors - consult_emb, axis=1)\<close>. The subtraction broadcasts
  the query vector of shape \<open>(d',)\<close> against the store: shapes agree when the last
  dimensions are equal or one of them is 1, and fail with a \<open>ValueError\<close> otherwise. On
  the one-dimensional empty store the difference has one dimension and \<open>axis=1\<close> does not
  exist (\<open>AxisError\<close>).
\<close>

definition row_distances :: "real list list \<Rightarrow> real list \<Rightarrow> exn + real list" where
  "row_distances rows consult_emb =
     (if rows = [] then (if length consult_emb \<le> 1 then Inl AxisError else Inl ValueError)
      else (let d = length (hd rows); d' = length consult_emb
            in if d = d' then Inr (map (\<lambda>row. linalg_norm (map2 (-) row consult_emb)) rows)
               else if d = 1
                 then Inr (map (\<lambda>row. linalg_norm (map (\<lambda>y. hd row - y) consult_emb)) rows)
               else if d' = 1
                 then Inr (map (\<lambda>row. linalg_norm (map (\<lambda>x. x - hd consult_emb) row)) rows)
               else Inl ValueError))"

text \<open>
  \<open>np.argsort\<close> with its default \<open>kind='quicksort'\<close> is a parameter of the model. NumPy
  documents that it returns the indices that sort the array, and that this kind is not
  stable: nothing is promised about the order of the indices of equal values.
\<close>

definition argsort_ok :: "(real list \<Rightarrow> nat list) \<Rightarrow> bool" where
  "argsort_ok argsort \<longleftrightarrow>
     (\<forall>ds. mset (argsort ds) = mset [0..<length ds] \<and> sorted (map (\<lambda>i. ds ! i) (argsort ds)))"

text \<open>A function that meets this contract and keeps equal values in store order.\<close>

definition argsort_stable :: "real list \<Rightarrow> nat list" where
  "argsort_stable ds = sort_key (\<lambda>i. ds ! i) [0..<length ds]"

text \<open>
  How NumPy sorts a short array depends on the processor. On x86 processors with AVX2
  or AVX-512 the quicksort of 64-bit values is vectorised: the values and their indices
  are loaded into the lanes of a register, the unused lanes holding the greatest value,
  and sorted by a network of compare-exchange steps, first on neighbours, then on the
  lanes mirrored in a group of four, then on neighbours again. A step exchanges two lanes
  only when the key of the upper lane is smaller, and an index moves with its key: equal
  keys are never exchanged with each other, but a key that moves can pass an equal one.
  Elsewhere an array this short is sorted by insertion, as \<open>argsort_stable\<close> does.

  \<open>argsort_simd\<close> follows the network for arrays of two to four values. It is not a model
  of NumPy on longer arrays, which it sorts as \<open>argsort_stable\<close> does.
\<close>

type_synonym lane = "real option \<times> nat"

definition key_less :: "real option \<Rightarrow> real option \<Rightarrow> bool" where
  "key_less x y = (case x of None \<Rightarrow> False | Some a \<Rightarrow> (case y of None \<Rightarrow> True | Some b \<Rightarrow> a < b))"

definition exchange :: "lane \<Rightarrow> lane \<Rightarrow> lane \<times> lane" where
  "exchange lo hi = (if key_less (fst hi) (fst lo) then (hi, lo) else (lo, hi))"

definition network4 :: "lane \<Rightarrow> lane \<Rightarrow> lane \<Rightarrow> lane \<Rightarrow> lane list" where
  "network4 l0 l1 l2 l3 =
     (case exchange l0 l1 of (a0, a1) \<Rightarrow>
      case exchange l2 l3 of (a2, a3) \<Rightarrow>
      case exchange a0 a3 of (b0, b3) \<Rightarrow>
      case exchange a1 a2 of (b1, b2) \<Rightarrow>
      case exchange b0 b1 of (c0, c1) \<Rightarrow>
      case exchange b2 b3 of (c2, c3) \<Rightarrow> [c0, c1, c2, c3])"

definition load_lane :: "real list \<Rightarrow> nat \<Rightarrow> lane" where
  "load_lane ds i = (if i < length ds then (Some (ds ! i), i) else (None, 0))"

definition argsort_simd :: "real list \<Rightarrow> nat list" where
  "argsort_simd ds =
     (if 2 \<le> length ds \<and> length ds \<le> 4
      then map snd (take (length ds)
             (network4 (load_lane ds 0) (load_lane ds 1) (load_lane ds 2) (load_lane ds 3)))
      else argsort_stable ds)"

section \<open>\<open>SearchSimilarProduct\<close>\<close>

record product =
  id_key :: int
  code :: string
  description :: string

record semantic_match = product +
  similarity :: real
  distance :: real

record fuzzy_match = product +
  score_fuzzy :: real

record results =
  consult_original :: string
  consult_used :: string
  semantics :: "semantic_match list"
  fallback_fuzzy :: "fuzzy_match list"

text \<open>
  The fields of \<open>self\<close> that the two methods use. \<open>embed_query\<close> is
  \<open>self.embedding.embed_query\<close>, the remote provider: it returns a vector or raises.
\<close>

record searcher =
  top_k :: int
  minimal_distance :: real
  embed_query :: "string \<Rightarrow> exn + real list"
  vectors :: "real list list"
  products :: "product list"

subsection \<open>\<open>_load_embeddings\<close>\<close>

text \<open>
  The query either fails (\<open>cursor\<close>, \<open>execute\<close>, \<open>fetchall\<close>) or returns rows
  \<open>(id, code, description, blob)\<close>. \<open>np.frombuffer(bytes, dtype=np.float32)\<close> refuses a
  buffer whose size is not a multiple of 4; the value of each group of four bytes is
  given by the parameter \<open>f32\<close>.
\<close>

type_synonym row = "int \<times> string \<times> string \<times> 8 word list"

fun chunks4 :: "'a list \<Rightarrow> 'a list list" where
  "chunks4 (b0 # b1 # b2 # b3 # rest) = [b0, b1, b2, b3] # chunks4 rest"
| "chunks4 rest = []"

definition frombuffer :: "(8 word list \<Rightarrow> real) \<Rightarrow> 8 word list \<Rightarrow> exn + real list" where
  "frombuffer f32 buf = (if length buf mod 4 \<noteq> 0 then Inl ValueError else Inr (map f32 (chunks4 buf)))"

fun load_rows :: "(8 word list \<Rightarrow> real) \<Rightarrow> row list \<Rightarrow> real list list \<Rightarrow> product list
    \<Rightarrow> exn + real list list \<times> product list" where
  "load_rows f32 [] vecs prods = Inr (vecs, prods)"
| "load_rows f32 ((id_row, code_row, description_row, blob) # rows) vecs prods =
     (case frombuffer f32 blob of
        Inl e \<Rightarrow> Inl e
      | Inr vector \<Rightarrow>
          load_rows f32 rows (vecs @ [vector])
            (prods @ [\<lparr>id_key = id_row, code = code_row, description = description_row\<rparr>]))"

text \<open>The \<open>except\<close> clause logs and re-raises: every failure leaves the method as a failure.\<close>

definition load_embeddings :: "(8 word list \<Rightarrow> real) \<Rightarrow> searcher \<Rightarrow> exn + row list \<Rightarrow> exn + searcher" where
  "load_embeddings f32 self fetched =
     (case fetched of
        Inl e \<Rightarrow> Inl e
      | Inr rows \<Rightarrow>
          (case load_rows f32 rows [] [] of
             Inl e \<Rightarrow> Inl e
           | Inr (vs, ps) \<Rightarrow>
               (case np_array vs of
                  Inl e \<Rightarrow> Inl e
                | Inr matrix \<Rightarrow> Inr (self\<lparr>vectors := matrix, products := ps\<rparr>))))"

subsection \<open>\<open>_correct_input\<close>\<close>

definition correct_input :: "searcher \<Rightarrow> string \<Rightarrow> string" where
  "correct_input self input_user =
     (let descriptions = map description (products self);
          suggestions = get_close_matches input_user descriptions
      in case suggestions of [] \<Rightarrow> input_user | s # _ \<Rightarrow> s)"

subsection \<open>\<open>search_similar_products\<close>\<close>

text \<open>
  The loop over \<open>top_indices\<close>. It appends to \<open>results["semantics"]\<close> as it goes, so the
  matches appended before an exception stay in the result.
\<close>

fun semantic_loop :: "product list \<Rightarrow> real list \<Rightarrow> real \<Rightarrow> nat list \<Rightarrow> semantic_match list
    \<Rightarrow> semantic_match list \<times> exn option" where
  "semantic_loop prods dists md [] acc = (acc, None)"
| "semantic_loop prods dists md (idx # rest) acc =
     (if length dists \<le> idx then (acc, Some IndexError)
      else (let dist = dists ! idx
            in if dist < md then
                 (if length prods \<le> idx then (acc, Some IndexError)
                  else (let match = prods ! idx; sim = 1 / (1 + dist)
                        in semantic_loop prods dists md rest
                             (acc @ [\<lparr>id_key = id_key match, code = code match,
                                      description = description match,
                                      similarity = round_to (sim * 100) 2,
                                      distance = round_to dist 4\<rparr>])))
               else semantic_loop prods dists md rest acc))"

text \<open>
  The fallback: \<open>better_fuzz.sort(key=lambda x: x[1], reverse=True)\<close> is a stable sort by
  descending score, elements of equal score keeping their order.
\<close>

definition fuzzy_fallback :: "searcher \<Rightarrow> string \<Rightarrow> fuzzy_match list" where
  "fuzzy_fallback self description_corrected =
     (let better_fuzz = map (\<lambda>product. (product, token_sort_ratio description_corrected (description product)))
                          (products self);
          better_fuzz = sort_key (\<lambda>x. - snd x) better_fuzz
      in map (\<lambda>(product, score).
                \<lparr>id_key = id_key product, code = code product, description = description product,
                 score_fuzzy = round_to score 2\<rparr>)
           (slice_to (top_k self) better_fuzz))"

text \<open>
  The body of the \<open>try\<close> statement: the dictionary \<open>results\<close> as the body leaves it, and
  the exception that ended the body, if one did.
\<close>

definition try_body :: "(real list \<Rightarrow> nat list) \<Rightarrow> searcher \<Rightarrow> string \<Rightarrow> results \<Rightarrow> results \<times> exn option" where
  "try_body argsort self description_corrected res =
     (case embed_query self description_corrected of
        Inl e \<Rightarrow> (res, Some e)
      | Inr consult_emb \<Rightarrow>
          (case row_distances (vectors self) consult_emb of
             Inl e \<Rightarrow> (res, Some e)
           | Inr dists \<Rightarrow>
               (let top_indices = slice_to (top_k self) (argsort dists)
                in case semantic_loop (products self) dists (minimal_distance self) top_indices []
                   of (sem, Some e) \<Rightarrow> (res\<lparr>semantics := sem\<rparr>, Some e)
                    | (sem, None) \<Rightarrow>
                        (if sem = []
                         then (res\<lparr>semantics := sem,
                                    fallback_fuzzy := fuzzy_fallback self description_corrected\<rparr>, None)
                         else (res\<lparr>semantics := sem\<rparr>, None)))))"

text \<open>
  The method: \<open>except Exception\<close> logs the exception and falls through to
  \<open>return results\<close>. An exception that left the method would be \<open>Inl\<close>.
\<close>

definition search_similar_products :: "(real list \<Rightarrow> nat list) \<Rightarrow> searcher \<Rightarrow> string \<Rightarrow> exn + results" where
  "search_similar_products argsort self description_input0 =
     (let description_input = strip description_input0;
          description_corrected = correct_input self description_input;
          res = \<lparr>consult_original = description_input, consult_used = description_corrected,
                 semantics = [], fallback_fuzzy = []\<rparr>
      in case try_body argsort self description_corrected res of (res', _) \<Rightarrow> Inr res')"

subsection \<open>The method as a state transformer\<close>

text \<open>
  \<open>search_similar_products\<close> above gives what the method returns. What a call does to the
  process is written out here: the same statements in the same order, each taking the state
  and giving it back. The state is the object \<open>self\<close> with the attributes that the method
  reads, and the messages that the module's \<open>logger\<close> has received.
\<close>

datatype log_entry =
    Searching string
  | Corrected string string
  | Found_semantic nat
  | Falling_back
  | Found_fuzzy nat
  | Search_error exn

text \<open>
  \<open>self.embedding\<close> is the client of the provider; its own state is of any type \<open>'p\<close>.
  \<open>self.conn\<close>, the database connection, is not used by a search and is left out. A
  provider is a function of the client's state and the text, and gives the vector, or the
  exception, and the client's new state.
\<close>

record 'p process =
  self_top_k :: int
  self_minimal_distance :: real
  self_embedding :: 'p
  self_vectors :: "real list list"
  self_products :: "product list"
  app_log :: "log_entry list"

type_synonym 'p provider = "'p \<Rightarrow> string \<Rightarrow> (exn + real list) \<times> 'p"

definition logger :: "log_entry \<Rightarrow> 'p process \<Rightarrow> 'p process" where
  "logger entry s = s\<lparr>app_log := app_log s @ [entry]\<rparr>"

text \<open>The attributes as \<open>search_similar_products\<close> reads them.\<close>

definition as_searcher :: "'p provider \<Rightarrow> 'p process \<Rightarrow> searcher" where
  "as_searcher embed_call s =
     \<lparr>top_k = self_top_k s, minimal_distance = self_minimal_distance s,
      embed_query = (\<lambda>text. fst (embed_call (self_embedding s) text)),
      vectors = self_vectors s, products = self_products s\<rparr>"

text \<open>
  \<open>_correct_input\<close> and the fuzzy fallback read \<open>self.products\<close> and \<open>self.top_k\<close>; their
  lists \<open>descriptions\<close> and \<open>better_fuzz\<close> are local.
\<close>

definition correct_input_call :: "string \<Rightarrow> 'p process \<Rightarrow> string \<times> 'p process" where
  "correct_input_call input_user s =
     (let descriptions = map description (self_products s);
          suggestions = get_close_matches input_user descriptions
      in (case suggestions of [] \<Rightarrow> input_user | x # _ \<Rightarrow> x, s))"

definition fuzzy_fallback_call :: "string \<Rightarrow> 'p process \<Rightarrow> fuzzy_match list \<times> 'p process" where
  "fuzzy_fallback_call description_corrected s =
     (let better_fuzz = map (\<lambda>product. (product, token_sort_ratio description_corrected (description product)))
                          (self_products s);
          better_fuzz = sort_key (\<lambda>x. - snd x) better_fuzz
      in (map (\<lambda>(product, score).
                \<lparr>id_key = id_key product, code = code product, description = description product,
                 score_fuzzy = round_to score 2\<rparr>)
           (slice_to (self_top_k s) better_fuzz), s))"

text \<open>
  The body of the \<open>try\<close> statement. \<open>embed_query\<close> is a call into the client, which may
  change it also when it raises. \<open>self.vectors - consult_emb\<close>, \<open>np.argsort\<close> and the slice
  build new arrays; \<open>results\<close> is the dictionary created by this call.
\<close>

definition try_body_call :: "'p provider \<Rightarrow> (real list \<Rightarrow> nat list) \<Rightarrow> string \<Rightarrow> results
    \<Rightarrow> 'p process \<Rightarrow> (results \<times> exn option) \<times> 'p process" where
  "try_body_call embed_call argsort description_corrected res s =
     (case embed_call (self_embedding s) description_corrected of (answer, client) \<Rightarrow>
      (let s1 = s\<lparr>self_embedding := client\<rparr>
       in case answer of
            Inl e \<Rightarrow> ((res, Some e), s1)
          | Inr consult_emb \<Rightarrow>
              (case row_distances (self_vectors s1) consult_emb of
                 Inl e \<Rightarrow> ((res, Some e), s1)
               | Inr dists \<Rightarrow>
                   (let top_indices = slice_to (self_top_k s1) (argsort dists)
                    in case semantic_loop (self_products s1) dists (self_minimal_distance s1)
                              top_indices []
                       of (sem, Some e) \<Rightarrow> ((res\<lparr>semantics := sem\<rparr>, Some e), s1)
                        | (sem, None) \<Rightarrow>
                            (let s2 = logger (Found_semantic (length sem)) s1
                             in if sem = []
                                then (let s3 = logger Falling_back s2;
                                          (fuzzy, s4) = fuzzy_fallback_call description_corrected s3;
                                          s5 = logger (Found_fuzzy (length fuzzy)) s4
                                      in ((res\<lparr>semantics := sem, fallback_fuzzy := fuzzy\<rparr>, None), s5))
                                else ((res\<lparr>semantics := sem\<rparr>, None), s2))))))"

text \<open>The method: the messages are logged where the source logs them.\<close>

definition search_call :: "'p provider \<Rightarrow> (real list \<Rightarrow> nat list) \<Rightarrow> string \<Rightarrow> 'p process
    \<Rightarrow> (exn + results) \<times> 'p process" where
  "search_call embed_call argsort description_input0 s =
     (let s1 = logger (Searching (take 50 description_input0)) s;
          description_input = strip description_input0;
          (description_corrected, s2) = correct_input_call description_input s1;
          s3 = (if description_corrected \<noteq> description_input
                then logger (Corrected description_input description_corrected) s2 else s2);
          res = \<lparr>consult_original = description_input, consult_used = description_corrected,
                 semantics = [], fallback_fuzzy = []\<rparr>
      in case try_body_call embed_call argsort description_corrected res s3 of
           ((res', None), s4) \<Rightarrow> (Inr res', s4)
         | ((res', Some e), s4) \<Rightarrow> (Inr res', logger (Search_error e) s4))"

section \<open>Properties\<close>

subsection \<open>The shape of a search\<close>

lemma search_unfold:
  "search_similar_products argsort self q =
     Inr (fst (try_body argsort self (correct_input self (strip q))
            \<lparr>consult_original = strip q, consult_used = correct_input self (strip q),
             semantics = [], fallback_fuzzy = []\<rparr>))"
  by (simp add: search_similar_products_def Let_def split: prod.splits)

lemma try_body_queries:
  "consult_original (fst (try_body argsort self dc res)) = consult_original res
   \<and> consult_used (fst (try_body argsort self dc res)) = consult_used res"
  by (simp add: try_body_def Let_def split: sum.splits prod.splits option.splits)

lemma try_body_one_list:
  "semantics res = [] \<Longrightarrow> fallback_fuzzy res = [] \<Longrightarrow>
   semantics (fst (try_body argsort self dc res)) = [] \<or> fallback_fuzzy (fst (try_body argsort self dc res)) = []"
  by (simp add: try_body_def Let_def split: sum.splits prod.splits option.splits)

lemma dropWhile_rev_prefix_hd:
  "xs \<noteq> [] \<Longrightarrow> \<not> P (hd xs) \<Longrightarrow> rev (dropWhile Q (rev xs)) \<noteq> [] \<Longrightarrow> \<not> P (hd (rev (dropWhile Q (rev xs))))"
proof -
  assume a: "xs \<noteq> []" "\<not> P (hd xs)" "rev (dropWhile Q (rev xs)) \<noteq> []"
  have "rev xs = takeWhile Q (rev xs) @ dropWhile Q (rev xs)" by simp
  then have "xs = rev (dropWhile Q (rev xs)) @ rev (takeWhile Q (rev xs))"
    by (metis rev_append rev_rev_ident)
  then have "hd xs = hd (rev (dropWhile Q (rev xs)))" using a(3) by (metis hd_append2)
  then show ?thesis using a(2) by simp
qed

lemma lstrip_rstrip_lstrip: "lstrip (rstrip (lstrip s)) = rstrip (lstrip s)"
proof (cases "rstrip (lstrip s) = []")
  case True
  then show ?thesis by (simp add: lstrip_def)
next
  case False
  then have ne: "lstrip s \<noteq> []" by (auto simp: rstrip_def)
  then have "\<not> isspace (hd (lstrip s))" unfolding lstrip_def by (metis hd_dropWhile)
  then have "\<not> isspace (hd (rstrip (lstrip s)))"
    using dropWhile_rev_prefix_hd[OF ne, of isspace isspace] False by (simp add: rstrip_def)
  then show ?thesis using False unfolding lstrip_def[of "rstrip (lstrip s)"]
    by (cases "rstrip (lstrip s)") auto
qed

lemma rstrip_idem: "rstrip (rstrip s) = rstrip s"
  by (simp add: rstrip_def)

lemma strip_idem: "strip (strip s) = strip s"
  by (simp add: strip_def lstrip_rstrip_lstrip rstrip_idem)

text \<open>A store of two products for the examples; the provider answers every text with the origin.\<close>

definition shop :: searcher where
  "shop = \<lparr>top_k = 5, minimal_distance = 1, embed_query = (\<lambda>s. Inr [0, 0]),
           vectors = [[0, 0], [2, 0]],
           products = [\<lparr>id_key = 1, code = ''EAN1'', description = ''abc''\<rparr>,
                       \<lparr>id_key = 2, code = ''EAN2'', description = ''abd''\<rparr>]\<rparr>"

lemma shop_correct: "correct_input shop ''ab'' = ''abd''"
  unfolding shop_def by code_simp

lemma shop_dists: "row_distances (vectors shop) [0, 0] = Inr [0, 2]"
  by (simp add: shop_def row_distances_def linalg_norm_def)

lemma argsort_stable_02: "argsort_stable [0, 2] = [0, 1]"
  by code_simp

lemma strip_ab: "strip '' ab '' = ''ab''"
  by (simp add: strip_def lstrip_def rstrip_def isspace_def)

lemma shop_search:
  "search_similar_products argsort_stable shop '' ab '' =
     Inr \<lparr>consult_original = ''ab'', consult_used = ''abd'',
          semantics = [\<lparr>id_key = 1, code = ''EAN1'', description = ''abc'', similarity = 100, distance = 0\<rparr>],
          fallback_fuzzy = []\<rparr>"
proof -
  have e: "embed_query shop ''abd'' = Inr [0, 0]" by (simp add: shop_def)
  have p: "products shop = [\<lparr>id_key = 1, code = ''EAN1'', description = ''abc''\<rparr>,
                       \<lparr>id_key = 2, code = ''EAN2'', description = ''abd''\<rparr>]"
     "top_k shop = 5" "minimal_distance shop = 1" by (simp_all add: shop_def)
  have r: "round_to 100 2 = 100" "round_to 0 4 = 0" by (simp_all add: round_to_def rint_def)
  show ?thesis
    unfolding search_unfold strip_ab shop_correct
    by (simp add: try_body_def e shop_dists argsort_stable_02 p slice_to_def r)
qed

subsection \<open>The query is stripped first\<close>

text \<open>
  Claim C10. \<open>search_similar_products\<close> strips the whitespace around the query before
  anything else: the result records the stripped text as \<open>consult_original\<close>, the text
  used is the correction of the stripped text, the whole result is that of searching for
  the stripped text, and for some query the recorded original differs from the argument.
\<close>

theorem search_strips_query:
  "(\<exists>r. search_similar_products argsort self q = Inr r
        \<and> consult_original r = strip q \<and> consult_used r = correct_input self (strip q))
   \<and> search_similar_products argsort self q = search_similar_products argsort self (strip q)
   \<and> (\<exists>q' r. search_similar_products argsort self q' = Inr r \<and> consult_original r \<noteq> q')"
proof -
  have a: "\<exists>r. search_similar_products argsort self q = Inr r
        \<and> consult_original r = strip q \<and> consult_used r = correct_input self (strip q)" for q
    by (simp add: search_unfold try_body_queries)
  have b: "search_similar_products argsort self q = search_similar_products argsort self (strip q)"
    by (simp add: search_unfold strip_idem)
  have "strip '' a'' = ''a''" by (simp add: strip_def lstrip_def rstrip_def isspace_def)
  then have "\<exists>r. search_similar_products argsort self '' a'' = Inr r \<and> consult_original r \<noteq> '' a''"
    using a[of "'' a''"] by auto
  then show ?thesis using a b by blast
qed

theorem search_strips_query_witness:
  "search_similar_products argsort_stable shop '' ab '' = search_similar_products argsort_stable shop ''ab''
   \<and> (\<exists>r. search_similar_products argsort_stable shop '' ab '' = Inr r \<and> consult_original r = ''ab''
          \<and> consult_used r = ''abd'')"
proof -
  have "(\<exists>r. search_similar_products argsort_stable shop '' ab '' = Inr r
        \<and> consult_original r = ''ab'' \<and> consult_used r = ''abd'')
     \<and> search_similar_products argsort_stable shop '' ab '' = search_similar_products argsort_stable shop ''ab''"
    using search_strips_query[of argsort_stable shop "'' ab ''"] unfolding strip_ab shop_correct by blast
  then show ?thesis by blast
qed

subsection \<open>The fallback is not a supplement\<close>

text \<open>
  Claim C7. The result of a search has both lists, and at most one of them is not empty:
  the fuzzy fallback runs only when the semantic loop has appended nothing.
\<close>

theorem search_one_list:
  "search_similar_products argsort self q = Inr r \<Longrightarrow> semantics r = [] \<or> fallback_fuzzy r = []"
  using try_body_one_list[of "\<lparr>consult_original = strip q, consult_used = correct_input self (strip q),
             semantics = [], fallback_fuzzy = []\<rparr>" argsort self "correct_input self (strip q)"]
  by (auto simp: search_unfold)

theorem search_one_list_witness:
  "search_similar_products argsort_stable shop '' ab '' =
     Inr \<lparr>consult_original = ''ab'', consult_used = ''abd'',
          semantics = [\<lparr>id_key = 1, code = ''EAN1'', description = ''abc'', similarity = 100, distance = 0\<rparr>],
          fallback_fuzzy = []\<rparr>
   \<and> fallback_fuzzy \<lparr>consult_original = ''ab'', consult_used = ''abd'',
          semantics = [\<lparr>id_key = 1, code = ''EAN1'', description = ''abc'', similarity = 100, distance = 0\<rparr>],
          fallback_fuzzy = []\<rparr> = []"
  using search_one_list[OF shop_search] shop_search by simp

subsection \<open>Failures inside the \<open>try\<close> statement\<close>

text \<open>The match appended for the store index \<open>idx\<close>, and the result before the \<open>try\<close>.\<close>

definition semantic_of :: "product list \<Rightarrow> real list \<Rightarrow> nat \<Rightarrow> semantic_match" where
  "semantic_of prods dists idx =
     \<lparr>id_key = id_key (prods ! idx), code = code (prods ! idx),
      description = description (prods ! idx),
      similarity = round_to (1 / (1 + dists ! idx) * 100) 2,
      distance = round_to (dists ! idx) 4\<rparr>"

definition empty_results :: "searcher \<Rightarrow> string \<Rightarrow> results" where
  "empty_results self q =
     \<lparr>consult_original = strip q, consult_used = correct_input self (strip q),
      semantics = [], fallback_fuzzy = []\<rparr>"

definition search_failed :: "(real list \<Rightarrow> nat list) \<Rightarrow> searcher \<Rightarrow> string \<Rightarrow> bool" where
  "search_failed argsort self q \<longleftrightarrow>
     snd (try_body argsort self (correct_input self (strip q)) (empty_results self q)) \<noteq> None"

lemma search_unfold': 
  "search_similar_products argsort self q =
     Inr (fst (try_body argsort self (correct_input self (strip q)) (empty_results self q)))"
  by (simp add: search_unfold empty_results_def)

lemma semantic_loop_in_range:
  "\<forall>i\<in>set idxs. i < length dists \<and> i < length prods \<Longrightarrow>
   semantic_loop prods dists md idxs acc =
     (acc @ map (semantic_of prods dists) (filter (\<lambda>i. dists ! i < md) idxs), None)"
  by (induction idxs arbitrary: acc) (auto simp: semantic_of_def Let_def)

lemma row_distances_length: "row_distances rows emb = Inr dists \<Longrightarrow> length dists = length rows"
  by (auto simp: row_distances_def Let_def split: if_splits)

lemma set_slice_to: "set (slice_to k xs) \<subseteq> set xs"
  by (auto simp: slice_to_def dest: in_set_takeD)

lemma argsort_ok_set: "argsort_ok argsort \<Longrightarrow> set (argsort ds) = {..<length ds}"
proof -
  assume "argsort_ok argsort"
  then have "mset (argsort ds) = mset [0..<length ds]" by (simp add: argsort_ok_def)
  then have "set (argsort ds) = set [0..<length ds]" by (rule mset_eq_setD)
  then show ?thesis by (simp add: atLeast0LessThan)
qed

lemma try_body_embed_fails:
  "embed_query self dc = Inl e \<Longrightarrow> try_body argsort self dc res = (res, Some e)"
  by (simp add: try_body_def)

lemma try_body_distances_fail:
  "embed_query self dc = Inr emb \<Longrightarrow> row_distances (vectors self) emb = Inl e \<Longrightarrow>
   try_body argsort self dc res = (res, Some e)"
  by (simp add: try_body_def)

lemma row_distances_empty: "\<exists>e. row_distances [] emb = Inl e"
  by (simp add: row_distances_def)

lemma try_body_empty_store:
  "vectors self = [] \<Longrightarrow> \<exists>e. try_body argsort self dc res = (res, Some e)"
  using row_distances_empty[of "projr (embed_query self dc)"]
  by (cases "embed_query self dc") (auto simp: try_body_def)

lemma try_body_ranked:
  assumes "argsort_ok argsort" "length (products self) = length (vectors self)"
    "embed_query self dc = Inr emb" "row_distances (vectors self) emb = Inr dists"
  shows "try_body argsort self dc res =
     (let sem = map (semantic_of (products self) dists)
                  (filter (\<lambda>i. dists ! i < minimal_distance self) (slice_to (top_k self) (argsort dists)))
      in if sem = [] then (res\<lparr>semantics := sem, fallback_fuzzy := fuzzy_fallback self dc\<rparr>, None)
         else (res\<lparr>semantics := sem\<rparr>, None))"
proof -
  have len: "length dists = length (vectors self)" using assms(4) by (rule row_distances_length)
  have "\<forall>i\<in>set (slice_to (top_k self) (argsort dists)). i < length dists \<and> i < length (products self)"
    using set_slice_to[of "top_k self" "argsort dists"] argsort_ok_set[OF assms(1), of dists] len assms(2)
    by auto
  then show ?thesis
    by (simp add: try_body_def assms(3,4) semantic_loop_in_range Let_def)
qed

lemma try_body_failed_unchanged:
  assumes "argsort_ok argsort" "length (products self) = length (vectors self)"
    "snd (try_body argsort self dc res) \<noteq> None"
  shows "fst (try_body argsort self dc res) = res"
proof (cases "embed_query self dc")
  case (Inl e)
  then show ?thesis by (simp add: try_body_embed_fails)
next
  case (Inr emb)
  show ?thesis
  proof (cases "row_distances (vectors self) emb")
    case (Inl e)
    then show ?thesis using Inr by (simp add: try_body_distances_fail)
  next
    case (Inr dists)
    then show ?thesis using assms \<open>embed_query self dc = Inr emb\<close>
      by (simp add: try_body_ranked Let_def split: if_splits)
  qed
qed

text \<open>
  Claim C2. A search always returns a result with both queries recorded. When the
  provider raises or the store is empty, the \<open>try\<close> body fails and both lists of the
  result are empty. For a store with as many products as vectors, every failure of the
  \<open>try\<close> body leaves both lists empty.
\<close>

theorem search_catches_failures:
  "\<exists>r. search_similar_products argsort self q = Inr r
      \<and> consult_original r = strip q \<and> consult_used r = correct_input self (strip q)
      \<and> ((\<exists>e. embed_query self (consult_used r) = Inl e) \<or> vectors self = []
           \<longrightarrow> search_failed argsort self q \<and> semantics r = [] \<and> fallback_fuzzy r = [])
      \<and> (argsort_ok argsort \<and> length (products self) = length (vectors self)
           \<and> search_failed argsort self q
           \<longrightarrow> semantics r = [] \<and> fallback_fuzzy r = [])"
proof -
  let ?dc = "correct_input self (strip q)"
  let ?res = "empty_results self q"
  let ?r = "fst (try_body argsort self ?dc ?res)"
  have r: "search_similar_products argsort self q = Inr ?r" by (rule search_unfold')
  have q: "consult_original ?r = strip q" "consult_used ?r = ?dc"
    using try_body_queries[of argsort self ?dc ?res] by (simp_all add: empty_results_def)
  have e: "semantics ?res = []" "fallback_fuzzy ?res = []" by (simp_all add: empty_results_def)
  have a: "search_failed argsort self q \<and> semantics ?r = [] \<and> fallback_fuzzy ?r = []"
    if "(\<exists>e. embed_query self ?dc = Inl e) \<or> vectors self = []"
    using that try_body_embed_fails[of self ?dc _ argsort ?res] try_body_empty_store[of self argsort ?dc ?res] e
    by (auto simp: search_failed_def)
  have b: "semantics ?r = [] \<and> fallback_fuzzy ?r = []"
    if "argsort_ok argsort" "length (products self) = length (vectors self)" "search_failed argsort self q"
    using try_body_failed_unchanged[OF that(1,2), of ?dc ?res] that(3) e by (simp add: search_failed_def)
  show ?thesis using r q a b by (intro exI[of _ ?r]) (simp only: q, blast)
qed

lemma argsort_stable_ok: "argsort_ok argsort_stable"
  by (simp add: argsort_ok_def argsort_stable_def)

lemma length_2_4:
  "2 \<le> length ds \<Longrightarrow> length ds \<le> 4 \<Longrightarrow>
   (\<exists>a b. ds = [a, b]) \<or> (\<exists>a b c. ds = [a, b, c]) \<or> (\<exists>a b c d. ds = [a, b, c, d])"
  by (cases ds; cases "tl ds"; cases "tl (tl ds)"; cases "tl (tl (tl ds))"; cases "tl (tl (tl (tl ds)))") auto

lemma upt_2_3_4: "[0..<2] = [0, 1 :: nat]" "[0..<3] = [0, 1, 2 :: nat]" "[0..<4] = [0, 1, 2, 3 :: nat]"
  by code_simp+

lemma argsort_simd_2:
  "mset (argsort_simd [a, b]) = mset [0, 1]"
  "sorted (map (\<lambda>i. [a, b] ! i) (argsort_simd [a, b]))"
  by (auto simp: argsort_simd_def network4_def exchange_def key_less_def load_lane_def)

lemma argsort_simd_3:
  "mset (argsort_simd [a, b, c]) = mset [0, 1, 2]"
  "sorted (map (\<lambda>i. [a, b, c] ! i) (argsort_simd [a, b, c]))"
  by (auto simp: argsort_simd_def network4_def exchange_def key_less_def load_lane_def)

lemma argsort_simd_4:
  "mset (argsort_simd [a, b, c, d]) = mset [0, 1, 2, 3]"
  "sorted (map (\<lambda>i. [a, b, c, d] ! i) (argsort_simd [a, b, c, d]))"
  by (auto simp: argsort_simd_def network4_def exchange_def key_less_def load_lane_def)

lemma argsort_simd_ok: "argsort_ok argsort_simd"
proof -
  have "mset (argsort_simd ds) = mset [0..<length ds] \<and> sorted (map (\<lambda>i. ds ! i) (argsort_simd ds))" for ds
  proof (cases "2 \<le> length ds \<and> length ds \<le> 4")
    case True
    then consider a b where "ds = [a, b]" | a b c where "ds = [a, b, c]"
      | a b c d where "ds = [a, b, c, d]"
      using length_2_4[of ds] by blast
    then show ?thesis
    proof cases
      case 1
      then have l: "length ds = 2" by simp
      show ?thesis unfolding l upt_2_3_4 unfolding 1
        by (rule conjI) (rule argsort_simd_2)+
    next
      case 2
      then have l: "length ds = 3" by simp
      show ?thesis unfolding l upt_2_3_4 unfolding 2
        by (rule conjI) (rule argsort_simd_3)+
    next
      case 3
      then have l: "length ds = 4" by simp
      show ?thesis unfolding l upt_2_3_4 unfolding 3
        by (rule conjI) (rule argsort_simd_4)+
    qed
  next
    case False
    then have "argsort_simd ds = argsort_stable ds" by (auto simp: argsort_simd_def)
    then show ?thesis using argsort_stable_ok by (simp add: argsort_ok_def)
  qed
  then show ?thesis by (simp add: argsort_ok_def)
qed

lemma correct_input_products:
  "products s2 = products s1 \<Longrightarrow> correct_input s2 q = correct_input s1 q"
  by (simp add: correct_input_def)

definition shop_down :: searcher where
  "shop_down = shop\<lparr>embed_query := (\<lambda>s. Inl ProviderError)\<rparr>"

definition shop3 :: searcher where
  "shop3 = shop\<lparr>embed_query := (\<lambda>s. Inr [0, 0, 0])\<rparr>"

theorem search_catches_failures_witness:
  "(\<exists>e. embed_query shop_down ''abd'' = Inl e)
   \<and> argsort_ok argsort_stable \<and> length (products shop_down) = length (vectors shop_down)
   \<and> search_failed argsort_stable shop_down '' ab ''
   \<and> search_similar_products argsort_stable shop_down '' ab '' =
       Inr \<lparr>consult_original = ''ab'', consult_used = ''abd'', semantics = [], fallback_fuzzy = []\<rparr>"
proof -
  have c: "correct_input shop_down ''ab'' = ''abd''"
    using correct_input_products[of shop_down shop "''ab''"] by (simp add: shop_down_def shop_correct)
  have e: "embed_query shop_down ''abd'' = Inl ProviderError" by (simp add: shop_down_def)
  have l: "length (products shop_down) = length (vectors shop_down)" by (simp add: shop_down_def shop_def)
  obtain r where r: "search_similar_products argsort_stable shop_down '' ab '' = Inr r"
     "consult_original r = ''ab''" "consult_used r = ''abd''"
     "(\<exists>e. embed_query shop_down (consult_used r) = Inl e) \<or> vectors shop_down = []
           \<longrightarrow> search_failed argsort_stable shop_down '' ab '' \<and> semantics r = [] \<and> fallback_fuzzy r = []"
    using search_catches_failures[of argsort_stable shop_down "'' ab ''"] unfolding strip_ab c by blast
  then have "search_failed argsort_stable shop_down '' ab ''" "semantics r = []" "fallback_fuzzy r = []"
    using e by auto
  then show ?thesis using r(1-3) e l argsort_stable_ok by (cases r) simp
qed

subsection \<open>A query vector of another dimension\<close>

text \<open>
  Against claim C8: the store has vectors of dimension 2, the provider answers with a
  vector of dimension 3. The search returns a result, with both lists empty; no error
  reaches the caller.
\<close>

theorem dimension_mismatch_counterexample:
  "embed_query shop3 ''abd'' = Inr [0, 0, 0]
   \<and> length (hd (vectors shop3)) = 2
   \<and> search_similar_products argsort_stable shop3 ''ab'' =
       Inr \<lparr>consult_original = ''ab'', consult_used = ''abd'', semantics = [], fallback_fuzzy = []\<rparr>"
proof -
  have c: "correct_input shop3 ''ab'' = ''abd''"
    using correct_input_products[of shop3 shop "''ab''"] by (simp add: shop3_def shop_correct)
  have s: "strip ''ab'' = ''ab''" by (simp add: strip_def lstrip_def rstrip_def isspace_def)
  have d: "row_distances (vectors shop3) [0, 0, 0] = Inl ValueError"
    by (simp add: shop3_def shop_def row_distances_def)
  have e: "embed_query shop3 ''abd'' = Inr [0, 0, 0]" by (simp add: shop3_def)
  have l: "length (hd (vectors shop3)) = 2" by (simp add: shop3_def shop_def)
  show ?thesis
    unfolding search_unfold s c by (simp add: try_body_distances_fail[OF e d] e l)
qed

text \<open>
  Claim C8, amended. When the dimension of the query vector differs from that of the
  store and neither is 1, the subtraction raises a \<open>ValueError\<close>, which the search
  catches: it returns the result with both lists empty. Nothing is truncated or padded.
\<close>

theorem dimension_mismatch_caught:
  assumes "embed_query self (correct_input self (strip q)) = Inr emb"
    and "vectors self \<noteq> []"
    and "length (hd (vectors self)) \<noteq> length emb"
    and "length (hd (vectors self)) \<noteq> 1" and "length emb \<noteq> 1"
  shows "row_distances (vectors self) emb = Inl ValueError
    \<and> search_similar_products argsort self q =
        Inr \<lparr>consult_original = strip q, consult_used = correct_input self (strip q),
             semantics = [], fallback_fuzzy = []\<rparr>"
proof -
  have d: "row_distances (vectors self) emb = Inl ValueError"
    using assms(2-5) by (simp add: row_distances_def)
  then show ?thesis
    unfolding search_unfold by (simp add: try_body_distances_fail[OF assms(1) d])
qed

theorem dimension_mismatch_caught_witness:
  "embed_query shop3 (correct_input shop3 (strip ''ab'')) = Inr [0, 0, 0]
   \<and> vectors shop3 \<noteq> [] \<and> length (hd (vectors shop3)) \<noteq> length [0, 0, 0 :: real]
   \<and> length (hd (vectors shop3)) \<noteq> 1 \<and> length [0, 0, 0 :: real] \<noteq> 1
   \<and> row_distances (vectors shop3) [0, 0, 0] = Inl ValueError
   \<and> search_similar_products argsort_stable shop3 ''ab'' =
        Inr \<lparr>consult_original = strip ''ab'', consult_used = correct_input shop3 (strip ''ab''),
             semantics = [], fallback_fuzzy = []\<rparr>"
proof -
  have h: "embed_query shop3 (correct_input shop3 (strip ''ab'')) = Inr [0, 0, 0]"
    "vectors shop3 \<noteq> []" "length (hd (vectors shop3)) \<noteq> length [0, 0, 0 :: real]"
    "length (hd (vectors shop3)) \<noteq> 1" "length [0, 0, 0 :: real] \<noteq> 1"
    by (simp_all add: shop3_def shop_def)
  show ?thesis using dimension_mismatch_caught[OF h, of argsort_stable] h by simp
qed

subsection \<open>Repeating a search\<close>

text \<open>
  The store of a process: the vectors, the products and the two settings.
\<close>

definition same_store :: "'p process \<Rightarrow> 'p process \<Rightarrow> bool" where
  "same_store s s' \<longleftrightarrow>
     self_vectors s' = self_vectors s \<and> self_products s' = self_products s
     \<and> self_top_k s' = self_top_k s \<and> self_minimal_distance s' = self_minimal_distance s"

lemma same_store_refl: "same_store s s"
  by (simp add: same_store_def)

lemma same_store_trans: "same_store s s' \<Longrightarrow> same_store s' s'' \<Longrightarrow> same_store s s''"
  by (simp add: same_store_def)

lemma logger_store: "same_store s (logger entry s)"
  by (simp add: same_store_def logger_def)

lemma correct_input_call_eq:
  "correct_input_call q s = (correct_input (as_searcher embed_call s) q, s)"
  by (simp add: correct_input_call_def correct_input_def as_searcher_def)

lemma fuzzy_fallback_call_eq:
  "fuzzy_fallback_call dc s = (fuzzy_fallback (as_searcher embed_call s) dc, s)"
  by (simp add: fuzzy_fallback_call_def fuzzy_fallback_def as_searcher_def)

lemma try_body_call_result:
  "fst (try_body_call embed_call argsort dc res s) = try_body argsort (as_searcher embed_call s) dc res"
proof -
  have f: "fuzzy_fallback_call dc s' = (fuzzy_fallback (as_searcher embed_call s) dc, s')"
    if "self_products s' = self_products s" "self_top_k s' = self_top_k s" for s' :: "'a process"
    using that by (simp add: fuzzy_fallback_call_def fuzzy_fallback_def as_searcher_def)
  show ?thesis
    by (simp add: try_body_call_def try_body_def as_searcher_def[of embed_call s] f logger_def Let_def
        split: prod.splits sum.splits option.splits)
qed

lemma try_body_call_store: "same_store s (snd (try_body_call embed_call argsort dc res s))"
  by (simp add: try_body_call_def fuzzy_fallback_call_def same_store_def logger_def Let_def
      split: prod.splits sum.splits option.splits)

lemma search_call_result:
  "fst (search_call embed_call argsort q s) = search_similar_products argsort (as_searcher embed_call s) q"
proof -
  let ?s1 = "logger (Searching (take 50 q)) s"
  have a: "as_searcher embed_call ?s1 = as_searcher embed_call s" by (simp add: as_searcher_def logger_def)
  have b: "as_searcher embed_call (logger entry ?s1) = as_searcher embed_call s" for entry
    by (simp add: as_searcher_def logger_def)
  have "fst (search_call embed_call argsort q s) =
     Inr (fst (try_body argsort (as_searcher embed_call s) (correct_input (as_searcher embed_call s) (strip q))
            \<lparr>consult_original = strip q, consult_used = correct_input (as_searcher embed_call s) (strip q),
             semantics = [], fallback_fuzzy = []\<rparr>))"
    unfolding search_call_def Let_def correct_input_call_eq[of _ _ embed_call] a
    using try_body_call_result[of embed_call argsort] a b
    by (auto split: prod.splits option.splits) (metis fst_conv)+
  then show ?thesis by (simp add: search_unfold)
qed

lemma search_call_store: "same_store s (snd (search_call embed_call argsort q s))"
proof -
  have t: "same_store s (snd (case try_body_call embed_call argsort dc res s' of
           ((res', None), s4) \<Rightarrow> (Inr res', s4)
         | ((res', Some e), s4) \<Rightarrow> (Inr res', logger (Search_error e) s4)))"
    if "same_store s s'" for s' :: "'a process" and dc res
  proof -
    obtain res' ex s4 where c: "try_body_call embed_call argsort dc res s' = ((res', ex), s4)"
      by (cases "try_body_call embed_call argsort dc res s'") auto
    have "same_store s' s4" using try_body_call_store[of s' embed_call argsort dc res] c by simp
    then have "same_store s s4" using that same_store_trans by blast
    then show ?thesis using c same_store_trans[OF _ logger_store] by (cases ex) auto
  qed
  let ?s1 = "logger (Searching (take 50 q)) s"
  have 1: "same_store s ?s1" by (rule logger_store)
  have 2: "same_store s (logger entry ?s1)" for entry
    using same_store_trans[OF 1 logger_store] .
  show ?thesis
    unfolding search_call_def Let_def correct_input_call_eq[of _ _ embed_call]
    by (simp, intro conjI impI) (rule t[OF 2], rule t[OF 1])
qed

text \<open>
  A provider is deterministic when its answer for a text does not depend on the state of
  the client.
\<close>

definition deterministic_provider :: "'p provider \<Rightarrow> bool" where
  "deterministic_provider embed_call \<longleftrightarrow>
     (\<forall>client client' text. fst (embed_call client' text) = fst (embed_call client text))"

text \<open>
  Claim C9. Take any state of the process and any raw query, and call the method twice,
  the second call on the state that the first call left. With a deterministic provider the
  second call returns the result of the first: the same matches in the same order with
  the same rounded scores. The first call assigns to no attribute of the store, and
  neither does the second; this holds on every path of the method, the ones through
  \<open>except Exception\<close> included. What a call does change is the log and the client.
\<close>

theorem search_twice_same:
  assumes "deterministic_provider embed_call"
    and "search_call embed_call argsort q s = (r1, s1)"
    and "search_call embed_call argsort q s1 = (r2, s2)"
  shows "r2 = r1 \<and> same_store s s1 \<and> same_store s s2"
proof -
  have 1: "same_store s s1" using search_call_store[of s embed_call argsort q] assms(2) by simp
  have 2: "same_store s1 s2" using search_call_store[of s1 embed_call argsort q] assms(3) by simp
  have "(\<lambda>text. fst (embed_call (self_embedding s1) text)) = (\<lambda>text. fst (embed_call (self_embedding s) text))"
    using assms(1) by (auto simp: deterministic_provider_def)
  then have v: "as_searcher embed_call s1 = as_searcher embed_call s"
    using 1 by (simp add: as_searcher_def same_store_def)
  have "r1 = search_similar_products argsort (as_searcher embed_call s) q"
    using search_call_result[of embed_call argsort q s] assms(2) by simp
  moreover have "r2 = search_similar_products argsort (as_searcher embed_call s1) q"
    using search_call_result[of embed_call argsort q s1] assms(3) by simp
  ultimately show ?thesis using v 1 same_store_trans[OF 1 2] by simp
qed

text \<open>
  A provider that counts its calls, on the shop of two products: both calls return the
  match \<open>abc\<close>, the counter goes from 0 to 2 and the log gets three messages at each call.
\<close>

definition counting_provider :: "nat provider" where
  "counting_provider calls text = (Inr [0, 0], Suc calls)"

definition shop_process :: "nat \<Rightarrow> log_entry list \<Rightarrow> nat process" where
  "shop_process calls entries =
     \<lparr>self_top_k = 5, self_minimal_distance = 1, self_embedding = calls,
      self_vectors = [[0, 0], [2, 0]],
      self_products = [\<lparr>id_key = 1, code = ''EAN1'', description = ''abc''\<rparr>,
                       \<lparr>id_key = 2, code = ''EAN2'', description = ''abd''\<rparr>],
      app_log = entries\<rparr>"

lemma shop_process_call:
  "search_call counting_provider argsort_stable '' ab '' (shop_process calls entries) =
     (Inr \<lparr>consult_original = ''ab'', consult_used = ''abd'',
           semantics = [\<lparr>id_key = 1, code = ''EAN1'', description = ''abc'', similarity = 100, distance = 0\<rparr>],
           fallback_fuzzy = []\<rparr>,
      shop_process (Suc calls)
        (entries @ [Searching '' ab '', Corrected ''ab'' ''abd'', Found_semantic 1]))"
proof -
  have g: "get_close_matches ''ab'' [''abc'', ''abd''] = [''abd'']" by code_simp
  have d: "row_distances [[0, 0], [2, 0]] [0, 0] = Inr [0, 2]"
    using shop_dists by (simp add: shop_def)
  have r: "round_to 100 2 = 100" "round_to 0 4 = 0" by (simp_all add: round_to_def rint_def)
  show ?thesis
    by (simp add: search_call_def correct_input_call_def try_body_call_def shop_process_def
        logger_def counting_provider_def strip_ab g d argsort_stable_02 slice_to_def r Let_def)
qed

theorem search_twice_same_witness:
  "deterministic_provider counting_provider
   \<and> search_call counting_provider argsort_stable '' ab '' (shop_process 0 []) =
       (Inr \<lparr>consult_original = ''ab'', consult_used = ''abd'',
           semantics = [\<lparr>id_key = 1, code = ''EAN1'', description = ''abc'', similarity = 100, distance = 0\<rparr>],
           fallback_fuzzy = []\<rparr>,
        shop_process 1 [Searching '' ab '', Corrected ''ab'' ''abd'', Found_semantic 1])
   \<and> search_call counting_provider argsort_stable '' ab ''
         (shop_process 1 [Searching '' ab '', Corrected ''ab'' ''abd'', Found_semantic 1]) =
       (Inr \<lparr>consult_original = ''ab'', consult_used = ''abd'',
           semantics = [\<lparr>id_key = 1, code = ''EAN1'', description = ''abc'', similarity = 100, distance = 0\<rparr>],
           fallback_fuzzy = []\<rparr>,
        shop_process 2 [Searching '' ab '', Corrected ''ab'' ''abd'', Found_semantic 1,
                        Searching '' ab '', Corrected ''ab'' ''abd'', Found_semantic 1])
   \<and> same_store (shop_process 0 [])
         (shop_process 1 [Searching '' ab '', Corrected ''ab'' ''abd'', Found_semantic 1])
   \<and> shop_process 1 [Searching '' ab '', Corrected ''ab'' ''abd'', Found_semantic 1] \<noteq> shop_process 0 []"
proof -
  have d: "deterministic_provider counting_provider"
    by (simp add: deterministic_provider_def counting_provider_def)
  have c1: "search_call counting_provider argsort_stable '' ab '' (shop_process 0 []) =
       (Inr \<lparr>consult_original = ''ab'', consult_used = ''abd'',
           semantics = [\<lparr>id_key = 1, code = ''EAN1'', description = ''abc'', similarity = 100, distance = 0\<rparr>],
           fallback_fuzzy = []\<rparr>,
        shop_process 1 [Searching '' ab '', Corrected ''ab'' ''abd'', Found_semantic 1])"
    using shop_process_call[of 0 "[]"] by simp
  have c2: "search_call counting_provider argsort_stable '' ab ''
         (shop_process 1 [Searching '' ab '', Corrected ''ab'' ''abd'', Found_semantic 1]) =
       (Inr \<lparr>consult_original = ''ab'', consult_used = ''abd'',
           semantics = [\<lparr>id_key = 1, code = ''EAN1'', description = ''abc'', similarity = 100, distance = 0\<rparr>],
           fallback_fuzzy = []\<rparr>,
        shop_process 2 [Searching '' ab '', Corrected ''ab'' ''abd'', Found_semantic 1,
                        Searching '' ab '', Corrected ''ab'' ''abd'', Found_semantic 1])"
    using shop_process_call[of 1 "[Searching '' ab '', Corrected ''ab'' ''abd'', Found_semantic 1]"]
    by (simp add: numeral_2_eq_2)
  have n: "shop_process 1 [Searching '' ab '', Corrected ''ab'' ''abd'', Found_semantic 1] \<noteq> shop_process 0 []"
    by (simp add: shop_process_def)
  from search_twice_same[OF d c1 c2] show ?thesis using d c1 c2 n by simp
qed

subsection \<open>Loading the store\<close>

text \<open>The blob and the catalogue entry of a fetched row.\<close>

definition blob_of :: "row \<Rightarrow> 8 word list" where
  "blob_of r = snd (snd (snd r))"

definition product_of :: "row \<Rightarrow> product" where
  "product_of r = \<lparr>id_key = fst r, code = fst (snd r), description = fst (snd (snd r))\<rparr>"

lemma length_chunks4: "length (chunks4 buf) = length buf div 4"
  by (induction buf rule: chunks4.induct) simp_all

lemma load_rows_eq:
  "load_rows f32 rows vecs prods =
     (if \<forall>r\<in>set rows. length (blob_of r) mod 4 = 0
      then Inr (vecs @ map (\<lambda>r. map f32 (chunks4 (blob_of r))) rows, prods @ map product_of rows)
      else Inl ValueError)"
proof (induction rows arbitrary: vecs prods)
  case Nil
  then show ?case by simp
next
  case (Cons r rows)
  obtain i c d b where r: "r = (i, c, d, b)" by (cases r)
  show ?case
    by (simp add: r Cons.IH frombuffer_def blob_of_def product_of_def)
qed

lemma np_array_map:
  "np_array (map g rows) =
     (if \<forall>r\<in>set rows. length (g r) = length (g (hd rows)) then Inr (map g rows) else Inl ValueError)"
  by (cases rows) (simp_all add: np_array_def)

lemma same_size_iff:
  assumes "\<forall>r\<in>set rows. length (blob_of r) mod 4 = 0"
  shows "(\<forall>r\<in>set rows. length (blob_of r) div 4 = length (blob_of (hd rows)) div 4)
      \<longleftrightarrow> (\<forall>r\<in>set rows. length (blob_of r) = length (blob_of (hd rows)))"
proof (cases rows)
  case Nil
  then show ?thesis by simp
next
  case (Cons r0 rest)
  have "length (blob_of r) = length (blob_of r0)"
    if "r \<in> set rows" "length (blob_of r) div 4 = length (blob_of r0) div 4" for r
  proof -
    have "length (blob_of r) mod 4 = 0" "length (blob_of r0) mod 4 = 0"
      using assms that(1) Cons by auto
    then show ?thesis
      using that(2) div_mult_mod_eq[of "length (blob_of r)" 4] div_mult_mod_eq[of "length (blob_of r0)" 4]
      by simp
  qed
  then show ?thesis using Cons by auto
qed

lemma load_embeddings_eq:
  "load_embeddings f32 self (Inr rows) =
     (if (\<forall>r\<in>set rows. length (blob_of r) mod 4 = 0)
         \<and> (\<forall>r\<in>set rows. length (blob_of r) = length (blob_of (hd rows)))
      then Inr (self\<lparr>vectors := map (\<lambda>r. map f32 (chunks4 (blob_of r))) rows,
                     products := map product_of rows\<rparr>)
      else Inl ValueError)"
proof (cases "\<forall>r\<in>set rows. length (blob_of r) mod 4 = 0")
  case False
  then have "load_rows f32 rows [] [] = Inl ValueError" by (simp add: load_rows_eq)
  then show ?thesis using False by (simp add: load_embeddings_def)
next
  case True
  then have l: "load_rows f32 rows [] [] =
      Inr (map (\<lambda>r. map f32 (chunks4 (blob_of r))) rows, map product_of rows)"
    by (simp add: load_rows_eq)
  show ?thesis
  proof (cases "\<forall>r\<in>set rows. length (blob_of r) = length (blob_of (hd rows))")
    case same: True
    then have "np_array (map (\<lambda>r. map f32 (chunks4 (blob_of r))) rows) =
       Inr (map (\<lambda>r. map f32 (chunks4 (blob_of r))) rows)"
      using same_size_iff[OF True] by (simp add: np_array_map length_chunks4)
    then show ?thesis using True same by (simp add: load_embeddings_def l)
  next
    case diff: False
    then have "np_array (map (\<lambda>r. map f32 (chunks4 (blob_of r))) rows) = Inl ValueError"
      using same_size_iff[OF True] by (simp add: np_array_map length_chunks4)
    then show ?thesis using diff by (simp add: load_embeddings_def l)
  qed
qed

text \<open>
  Against claim C4: an empty source does not fail. The loop runs over no row,
  \<open>np.array([])\<close> succeeds, and the store is built with no product and no vector.
\<close>

theorem empty_source_counterexample:
  "load_embeddings (\<lambda>bytes. 0) shop (Inr []) = Inr (shop\<lparr>vectors := [], products := []\<rparr>)"
  by (simp add: load_embeddings_eq)

text \<open>
  Claim C4, amended. \<open>_load_embeddings\<close> fails, leaving no store, when the source
  cannot be read, when the size of a blob is not a multiple of four bytes, and when two
  blobs differ in size. When it succeeds the store has one product and one vector for
  each row, all vectors of one length. An empty source succeeds, with an empty store.
\<close>

theorem load_embeddings_fails:
  "load_embeddings f32 self (Inl e) = Inl e
   \<and> ((\<exists>r\<in>set rows. length (blob_of r) mod 4 \<noteq> 0)
         \<or> (\<exists>r\<in>set rows. \<exists>r'\<in>set rows. length (blob_of r) \<noteq> length (blob_of r'))
        \<longrightarrow> load_embeddings f32 self (Inr rows) = Inl ValueError)
   \<and> (\<forall>st. load_embeddings f32 self (Inr rows) = Inr st \<longrightarrow>
         length (products st) = length rows \<and> length (vectors st) = length rows
         \<and> (\<forall>v\<in>set (vectors st). length v = length (hd (vectors st))))
   \<and> load_embeddings f32 self (Inr []) = Inr (self\<lparr>vectors := [], products := []\<rparr>)"
proof -
  have a: "load_embeddings f32 self (Inl e) = Inl e" by (simp add: load_embeddings_def)
  have b: "load_embeddings f32 self (Inr rows) = Inl ValueError"
    if "(\<exists>r\<in>set rows. length (blob_of r) mod 4 \<noteq> 0)
         \<or> (\<exists>r\<in>set rows. \<exists>r'\<in>set rows. length (blob_of r) \<noteq> length (blob_of r'))"
  proof -
    have "\<not> ((\<forall>r\<in>set rows. length (blob_of r) mod 4 = 0)
         \<and> (\<forall>r\<in>set rows. length (blob_of r) = length (blob_of (hd rows))))"
    proof
      assume ab: "(\<forall>r\<in>set rows. length (blob_of r) mod 4 = 0)
         \<and> (\<forall>r\<in>set rows. length (blob_of r) = length (blob_of (hd rows)))"
      from that show False
      proof
        assume "\<exists>r\<in>set rows. length (blob_of r) mod 4 \<noteq> 0"
        with ab show False by auto
      next
        assume "\<exists>r\<in>set rows. \<exists>r'\<in>set rows. length (blob_of r) \<noteq> length (blob_of r')"
        then obtain r r' where r: "r \<in> set rows" "r' \<in> set rows"
          "length (blob_of r) \<noteq> length (blob_of r')" by blast
        from ab r(1,2) have "length (blob_of r) = length (blob_of (hd rows))"
          "length (blob_of r') = length (blob_of (hd rows))" by blast+
        with r(3) show False by simp
      qed
    qed
    then show ?thesis by (simp only: load_embeddings_eq if_False)
  qed
  have c: "length (products st) = length rows \<and> length (vectors st) = length rows
         \<and> (\<forall>v\<in>set (vectors st). length v = length (hd (vectors st)))"
    if "load_embeddings f32 self (Inr rows) = Inr st" for st
  proof -
    have ok: "(\<forall>r\<in>set rows. length (blob_of r) mod 4 = 0)"
       "(\<forall>r\<in>set rows. length (blob_of r) = length (blob_of (hd rows)))"
      and st: "st = self\<lparr>vectors := map (\<lambda>r. map f32 (chunks4 (blob_of r))) rows,
                     products := map product_of rows\<rparr>"
      using that by (auto simp: load_embeddings_eq split: if_splits)
    show ?thesis using ok(2) by (cases rows) (simp_all add: st length_chunks4)
  qed
  have d: "load_embeddings f32 self (Inr []) = Inr (self\<lparr>vectors := [], products := []\<rparr>)"
    by (simp add: load_embeddings_eq)
  have b': "(\<exists>r\<in>set rows. length (blob_of r) mod 4 \<noteq> 0)
         \<or> (\<exists>r\<in>set rows. \<exists>r'\<in>set rows. length (blob_of r) \<noteq> length (blob_of r'))
        \<longrightarrow> load_embeddings f32 self (Inr rows) = Inl ValueError"
    using b by (rule impI)
  have c': "\<forall>st. load_embeddings f32 self (Inr rows) = Inr st \<longrightarrow>
         length (products st) = length rows \<and> length (vectors st) = length rows
         \<and> (\<forall>v\<in>set (vectors st). length v = length (hd (vectors st)))"
    using c by (intro allI impI)
  show ?thesis by (intro conjI a b' c' d)
qed

definition ragged_rows :: "row list" where
  "ragged_rows = [(1, ''EAN1'', ''abc'', [0, 0, 0, 0]), (2, ''EAN2'', ''abd'', [0, 0, 0, 0, 0, 0, 0, 0])]"

definition good_rows :: "row list" where
  "good_rows = [(1, ''EAN1'', ''abc'', [0, 0, 0, 0]), (2, ''EAN2'', ''abd'', [0, 0, 0, 0])]"

lemma good_rows_load:
  "load_embeddings (\<lambda>bytes. 0) shop (Inr good_rows) =
     Inr (shop\<lparr>vectors := [[0], [0]],
               products := [\<lparr>id_key = 1, code = ''EAN1'', description = ''abc''\<rparr>,
                            \<lparr>id_key = 2, code = ''EAN2'', description = ''abd''\<rparr>]\<rparr>)"
  by (simp add: load_embeddings_def good_rows_def frombuffer_def np_array_def)

theorem load_embeddings_fails_witness:
  "(\<exists>r\<in>set ragged_rows. \<exists>r'\<in>set ragged_rows. length (blob_of r) \<noteq> length (blob_of r'))
   \<and> load_embeddings (\<lambda>bytes. 0) shop (Inr ragged_rows) = Inl ValueError
   \<and> load_embeddings (\<lambda>bytes. 0) shop (Inl DatabaseError) = Inl DatabaseError
   \<and> load_embeddings (\<lambda>bytes. 0) shop (Inr good_rows) =
       Inr (shop\<lparr>vectors := [[0], [0]],
               products := [\<lparr>id_key = 1, code = ''EAN1'', description = ''abc''\<rparr>,
                            \<lparr>id_key = 2, code = ''EAN2'', description = ''abd''\<rparr>]\<rparr>)
   \<and> length (products (shop\<lparr>vectors := [[0], [0]],
               products := [\<lparr>id_key = 1, code = ''EAN1'', description = ''abc''\<rparr>,
                            \<lparr>id_key = 2, code = ''EAN2'', description = ''abd''\<rparr>]\<rparr>)) = length good_rows"
proof -
  have h: "\<exists>r\<in>set ragged_rows. \<exists>r'\<in>set ragged_rows. length (blob_of r) \<noteq> length (blob_of r')"
    by (rule bexI[of _ "(1, ''EAN1'', ''abc'', [0, 0, 0, 0])"],
        rule bexI[of _ "(2, ''EAN2'', ''abd'', [0, 0, 0, 0, 0, 0, 0, 0])"])
       (simp_all add: ragged_rows_def blob_of_def)
  have a: "load_embeddings (\<lambda>bytes. 0) shop (Inr ragged_rows) = Inl ValueError"
    "load_embeddings (\<lambda>bytes. 0) shop (Inl DatabaseError) = Inl DatabaseError"
    using load_embeddings_fails[of "\<lambda>bytes. 0" shop DatabaseError ragged_rows] h by blast+
  have "\<forall>st. load_embeddings (\<lambda>bytes. 0) shop (Inr good_rows) = Inr st \<longrightarrow>
         length (products st) = length good_rows"
    using load_embeddings_fails[of "\<lambda>bytes. 0" shop DatabaseError good_rows] by blast
  from this[rule_format, OF good_rows_load] show ?thesis using h a good_rows_load by simp
qed

subsection \<open>Scores of a semantic match\<close>

text \<open>Rounding is monotone and leaves whole numbers alone.\<close>

lemma rint_bounds: "\<lfloor>x\<rfloor> \<le> rint x \<and> rint x \<le> \<lfloor>x\<rfloor> + 1"
  by (simp add: rint_def Let_def)

lemma rint_mono: "x \<le> y \<Longrightarrow> rint x \<le> rint y"
proof -
  assume xy: "x \<le> y"
  have fl: "\<lfloor>x\<rfloor> \<le> \<lfloor>y\<rfloor>" using xy by (rule floor_mono)
  show ?thesis
  proof (cases "\<lfloor>x\<rfloor> = \<lfloor>y\<rfloor>")
    case True
    then have "x - of_int \<lfloor>x\<rfloor> \<le> y - of_int \<lfloor>y\<rfloor>" using xy by simp
    then show ?thesis using True by (auto simp: rint_def Let_def)
  next
    case False
    then have "\<lfloor>x\<rfloor> + 1 \<le> \<lfloor>y\<rfloor>" using fl by simp
    then show ?thesis using rint_bounds[of x] rint_bounds[of y] by linarith
  qed
qed

lemma rint_of_int: "rint (of_int k) = k"
  by (simp add: rint_def)

lemma round_to_mono: "x \<le> y \<Longrightarrow> round_to x n \<le> round_to y n"
proof -
  assume "x \<le> y"
  then have "x * 10 ^ n \<le> y * 10 ^ n" by (simp add: mult_right_mono)
  then have "rint (x * 10 ^ n) \<le> rint (y * 10 ^ n)" by (rule rint_mono)
  then show ?thesis by (simp add: round_to_def divide_right_mono)
qed

lemma round_to_of_int: "round_to (of_int k) n = of_int k"
proof -
  have "of_int k * 10 ^ n = (of_int (k * 10 ^ n) :: real)" by simp
  then have "rint (of_int k * 10 ^ n) = k * 10 ^ n" by (simp only: rint_of_int)
  then show ?thesis by (simp add: round_to_def)
qed

lemma round_to_range:
  assumes "0 \<le> x" "x \<le> 100"
  shows "0 \<le> round_to x n \<and> round_to x n \<le> 100"
  using round_to_mono[OF assms(1), of n] round_to_mono[OF assms(2), of n]
    round_to_of_int[of 0 n] round_to_of_int[of 100 n] by simp

lemma linalg_norm_nonneg: "0 \<le> linalg_norm v"
proof -
  have "0 \<le> sum_list (map (\<lambda>x. x * x) v)" by (rule sum_list_nonneg) auto
  then show ?thesis by (simp add: linalg_norm_def)
qed

lemma row_distances_nonneg: "row_distances rows emb = Inr dists \<Longrightarrow> i < length dists \<Longrightarrow> 0 \<le> dists ! i"
  by (auto simp: row_distances_def Let_def linalg_norm_nonneg split: if_splits)

lemma row_distances_same_dimension:
  "row_distances rows emb = Inr dists \<Longrightarrow> length (hd rows) = length emb \<Longrightarrow> i < length dists \<Longrightarrow>
   dists ! i = linalg_norm (map2 (-) (rows ! i) emb)"
  by (auto simp: row_distances_def Let_def split: if_splits)

lemma semantic_loop_members:
  "semantic_loop prods dists md idxs acc = (sem, ex) \<Longrightarrow> m \<in> set sem \<Longrightarrow>
   m \<in> set acc \<or> (\<exists>idx\<in>set idxs. idx < length dists \<and> idx < length prods \<and> dists ! idx < md
                       \<and> m = semantic_of prods dists idx)"
proof (induction idxs arbitrary: acc)
  case Nil
  then show ?case by simp
next
  case (Cons idx rest)
  show ?case
  proof (cases "idx < length dists \<and> dists ! idx < md \<and> idx < length prods")
    case True
    then have "semantic_loop prods dists md rest (acc @ [semantic_of prods dists idx]) = (sem, ex)"
      using Cons.prems(1) by (simp add: semantic_of_def Let_def)
    from Cons.IH[OF this Cons.prems(2)] True show ?thesis by auto
  next
    case False
    then have "(acc, Some IndexError) = (sem, ex) \<or> semantic_loop prods dists md rest acc = (sem, ex)"
      using Cons.prems(1) by (auto simp: Let_def split: if_splits)
    then show ?thesis
    proof
      assume "(acc, Some IndexError) = (sem, ex)"
      then show ?thesis using Cons.prems(2) by simp
    next
      assume "semantic_loop prods dists md rest acc = (sem, ex)"
      from Cons.IH[OF this Cons.prems(2)] show ?thesis by auto
    qed
  qed
qed

lemma try_body_semantics_members:
  assumes "m \<in> set (semantics (fst (try_body argsort self dc res)))" "semantics res = []"
  shows "\<exists>emb dists idx. embed_query self dc = Inr emb \<and> row_distances (vectors self) emb = Inr dists
     \<and> idx < length dists \<and> idx < length (products self) \<and> dists ! idx < minimal_distance self
     \<and> m = semantic_of (products self) dists idx"
proof (cases "embed_query self dc")
  case (Inl e)
  then show ?thesis using assms by (simp add: try_body_embed_fails)
next
  case (Inr emb)
  note emb = this
  show ?thesis
  proof (cases "row_distances (vectors self) emb")
    case (Inl e)
    then show ?thesis using assms emb by (simp add: try_body_distances_fail)
  next
    case (Inr dists)
    obtain sem ex where l: "semantic_loop (products self) dists (minimal_distance self)
        (slice_to (top_k self) (argsort dists)) [] = (sem, ex)"
      by (cases "semantic_loop (products self) dists (minimal_distance self)
        (slice_to (top_k self) (argsort dists)) []")
    have "semantics (fst (try_body argsort self dc res)) = sem"
      by (cases ex) (simp_all add: try_body_def emb Inr l)
    then have "m \<in> set sem" using assms(1) by simp
    from semantic_loop_members[OF l this] show ?thesis using emb Inr by auto
  qed
qed

text \<open>
  Against claim C3: the first product of the example store is at distance 0 from the
  query vector. \<open>1 / (1 + 0)\<close> rounded to two places is 1; the \<open>similarity\<close> field of
  the match is 100, outside \<open>(0, 1]\<close>.
\<close>

theorem similarity_scale_counterexample:
  "search_similar_products argsort_stable shop ''ab'' =
     Inr \<lparr>consult_original = ''ab'', consult_used = ''abd'',
          semantics = [\<lparr>id_key = 1, code = ''EAN1'', description = ''abc'', similarity = 100, distance = 0\<rparr>],
          fallback_fuzzy = []\<rparr>
   \<and> row_distances (vectors shop) [0, 0] = Inr [0, 2]
   \<and> round_to (1 / (1 + 0)) 2 = 1"
proof -
  have "search_similar_products argsort_stable shop ''ab'' = search_similar_products argsort_stable shop '' ab ''"
    using search_unfold[of argsort_stable shop "''ab''"] search_unfold[of argsort_stable shop "'' ab ''"]
      strip_idem[of "'' ab ''"] by (simp add: strip_ab)
  moreover have "round_to (1 / (1 + 0)) 2 = 1" by (simp add: round_to_def rint_def)
  ultimately show ?thesis using shop_search shop_dists by simp
qed

text \<open>
  Claim C3, amended. Every semantic match returned comes from a store index \<open>idx\<close>
  whose distance \<open>d\<close> to the query vector was computed. \<open>1 / (1 + d)\<close> lies in
  \<open>(0, 1]\<close>; the \<open>similarity\<close> field is that value times 100, rounded to two places, a
  percentage between 0 and 100; the \<open>distance\<close> field is \<open>d\<close> rounded to four places;
  and \<open>d\<close> is the Euclidean norm of the difference of the stored row and the query
  vector when both have the same dimension.
\<close>

theorem semantic_match_scores:
  assumes "search_similar_products argsort self q = Inr r" and "m \<in> set (semantics r)"
  shows "\<exists>emb dists idx.
     embed_query self (consult_used r) = Inr emb \<and> row_distances (vectors self) emb = Inr dists
     \<and> idx < length dists \<and> idx < length (products self)
     \<and> id_key m = id_key (products self ! idx) \<and> code m = code (products self ! idx)
     \<and> description m = description (products self ! idx)
     \<and> similarity m = round_to (1 / (1 + dists ! idx) * 100) 2
     \<and> distance m = round_to (dists ! idx) 4
     \<and> 0 < 1 / (1 + dists ! idx) \<and> 1 / (1 + dists ! idx) \<le> 1
     \<and> 0 \<le> similarity m \<and> similarity m \<le> 100
     \<and> (length (hd (vectors self)) = length emb \<longrightarrow>
           dists ! idx = linalg_norm (map2 (-) (vectors self ! idx) emb))"
proof -
  let ?dc = "correct_input self (strip q)"
  have r: "r = fst (try_body argsort self ?dc (empty_results self q))"
    using assms(1) by (simp add: search_unfold')
  have u: "consult_used r = ?dc"
    using try_body_queries[of argsort self ?dc "empty_results self q"] by (simp add: r empty_results_def)
  obtain emb dists idx where h: "embed_query self ?dc = Inr emb"
     "row_distances (vectors self) emb = Inr dists" "idx < length dists" "idx < length (products self)"
     "m = semantic_of (products self) dists idx"
    using try_body_semantics_members[of m argsort self ?dc "empty_results self q"] assms(2)
    by (auto simp: r empty_results_def)
  have d: "0 \<le> dists ! idx" using h(2,3) by (rule row_distances_nonneg)
  then have s: "0 < 1 / (1 + dists ! idx)" "1 / (1 + dists ! idx) \<le> 1" by simp_all
  have "0 \<le> 1 / (1 + dists ! idx) * 100" "1 / (1 + dists ! idx) * 100 \<le> 100"
    using d by (simp_all add: field_simps)
  then have b: "0 \<le> similarity m \<and> similarity m \<le> 100"
    unfolding h(5) semantic_of_def using round_to_range by simp
  have e: "length (hd (vectors self)) = length emb \<longrightarrow>
           dists ! idx = linalg_norm (map2 (-) (vectors self ! idx) emb)"
    using row_distances_same_dimension[OF h(2) _ h(3)] by simp
  have f: "id_key m = id_key (products self ! idx)" "code m = code (products self ! idx)"
     "description m = description (products self ! idx)"
     "similarity m = round_to (1 / (1 + dists ! idx) * 100) 2"
     "distance m = round_to (dists ! idx) 4"
    by (simp_all add: h(5) semantic_of_def)
  show ?thesis
    unfolding u using h(1-4) f s b e by blast
qed

theorem semantic_match_scores_witness:
  "\<exists>emb dists idx.
     embed_query shop ''abd'' = Inr emb \<and> row_distances (vectors shop) emb = Inr dists
     \<and> idx < length dists
     \<and> (100 :: real) = round_to (1 / (1 + dists ! idx) * 100) 2
     \<and> (0 :: real) = round_to (dists ! idx) 4
     \<and> length (hd (vectors shop)) = length emb
     \<and> dists ! idx = linalg_norm (map2 (-) (vectors shop ! idx) emb)"
proof -
  let ?m = "\<lparr>id_key = 1, code = ''EAN1'', description = ''abc'', similarity = 100, distance = 0\<rparr>"
  let ?r = "\<lparr>consult_original = ''ab'', consult_used = ''abd'', semantics = [?m], fallback_fuzzy = []\<rparr>"
  have "?m \<in> set (semantics ?r)" by simp
  from semantic_match_scores[OF shop_search this]
  obtain emb dists idx where h: "embed_query shop ''abd'' = Inr emb"
     "row_distances (vectors shop) emb = Inr dists" "idx < length dists"
     "(100 :: real) = round_to (1 / (1 + dists ! idx) * 100) 2"
     "(0 :: real) = round_to (dists ! idx) 4"
     "length (hd (vectors shop)) = length emb \<longrightarrow>
           dists ! idx = linalg_norm (map2 (-) (vectors shop ! idx) emb)"
    by auto
  have "emb = [0, 0]" using h(1) by (simp add: shop_def)
  then have l: "length (hd (vectors shop)) = length emb" by (simp add: shop_def)
  then show ?thesis using h by blast
qed

subsection \<open>The semantic ranking\<close>

lemma slice_to_nonneg: "0 \<le> k \<Longrightarrow> slice_to k xs = take (nat k) xs"
  by (simp add: slice_to_def)

lemma argsort_ok_distinct: "argsort_ok argsort \<Longrightarrow> distinct (argsort ds)"
proof -
  assume "argsort_ok argsort"
  then have "mset (argsort ds) = mset [0..<length ds]" by (simp add: argsort_ok_def)
  then show ?thesis using mset_eq_imp_distinct_iff[of "argsort ds" "[0..<length ds]"] by simp
qed

lemma argsort_ok_sorted: "argsort_ok argsort \<Longrightarrow> sorted_wrt (\<lambda>i j. ds ! i \<le> ds ! j) (argsort ds)"
  by (simp add: argsort_ok_def sorted_map)

lemma sorted_wrt_filter_take:
  "sorted_wrt R xs \<Longrightarrow> sorted_wrt R (filter P (take n xs))"
  by (simp add: sorted_wrt_filter sorted_wrt_take)

lemma selected_indices:
  assumes "argsort_ok argsort" "0 \<le> k"
    and idxs_def: "idxs = filter (\<lambda>i. ds ! i < md) (slice_to k (argsort ds))"
  shows "length idxs \<le> nat k \<and> distinct idxs
     \<and> (\<forall>i\<in>set idxs. i < length ds \<and> ds ! i < md)
     \<and> sorted (map (\<lambda>i. ds ! i) idxs)"
proof -
  have s: "slice_to k (argsort ds) = take (nat k) (argsort ds)" using assms(2) by (rule slice_to_nonneg)
  have "length idxs \<le> length (take (nat k) (argsort ds))" unfolding idxs_def s by (rule length_filter_le)
  then have a: "length idxs \<le> nat k" by simp
  have b: "distinct idxs" unfolding idxs_def s using argsort_ok_distinct[OF assms(1), of ds] by simp
  have "set idxs \<subseteq> set (argsort ds)" unfolding idxs_def s by (auto dest: in_set_takeD)
  then have c: "\<forall>i\<in>set idxs. i < length ds \<and> ds ! i < md"
    using argsort_ok_set[OF assms(1), of ds] by (auto simp: idxs_def)
  have d: "sorted (map (\<lambda>i. ds ! i) idxs)"
    unfolding idxs_def s sorted_map using argsort_ok_sorted[OF assms(1), of ds]
    by (rule sorted_wrt_filter_take)
  show ?thesis using a b c d by simp
qed

lemma sorted_rounded:
  "sorted (map (\<lambda>i. ds ! i) idxs) \<Longrightarrow> sorted (map distance (map (semantic_of prods ds) idxs))"
proof -
  assume "sorted (map (\<lambda>i. ds ! i) idxs)"
  then have "sorted_wrt (\<lambda>i j. ds ! i \<le> ds ! j) idxs" by (simp add: sorted_map)
  then have "sorted_wrt (\<lambda>i j. round_to (ds ! i) 4 \<le> round_to (ds ! j) 4) idxs"
    by (rule sorted_wrt_mono_rel[rotated]) (simp add: round_to_mono)
  then show ?thesis by (simp add: sorted_map semantic_of_def comp_def)
qed

text \<open>A store of four products in one dimension; the provider answers every text with the origin.\<close>

definition quads :: searcher where
  "quads = \<lparr>top_k = 5, minimal_distance = 1, embed_query = (\<lambda>s. Inr [0]),
            vectors = [[1 / 2], [1 / 2], [0], [0]],
            products = [\<lparr>id_key = 1, code = ''EAN1'', description = ''abc''\<rparr>,
                        \<lparr>id_key = 2, code = ''EAN2'', description = ''abd''\<rparr>,
                        \<lparr>id_key = 3, code = ''EAN3'', description = ''xyz''\<rparr>,
                        \<lparr>id_key = 4, code = ''EAN4'', description = ''uvw''\<rparr>]\<rparr>"

lemma linalg_norm_single: "linalg_norm [x] = \<bar>x\<bar>"
  by (simp add: linalg_norm_def)

lemma quads_correct: "correct_input quads ''ab'' = ''abd''"
  unfolding quads_def by code_simp

lemma quads_dists: "row_distances (vectors quads) [0] = Inr [1 / 2, 1 / 2, 0, 0]"
  by (simp add: quads_def row_distances_def linalg_norm_single)

lemma strip_ab_plain: "strip ''ab'' = ''ab''"
  by (simp add: strip_def lstrip_def rstrip_def isspace_def)

lemma quads_rounding:
  "round_to 100 2 = 100" "round_to 0 4 = 0"
  "round_to (200 / 3) 2 = 6667 / 100" "round_to (1 / 2) 4 = 1 / 2"
  by (simp_all add: round_to_def rint_def)

lemma quads_search:
  assumes "argsort [1 / 2, 1 / 2, 0, 0] = [i0, i1, i2, i3]"
    and "i0 < 4" "i1 < 4" "i2 < 4" "i3 < 4"
  shows "search_similar_products argsort quads ''ab'' =
     Inr \<lparr>consult_original = ''ab'', consult_used = ''abd'',
          semantics = map (semantic_of (products quads) [1 / 2, 1 / 2, 0, 0]) [i0, i1, i2, i3],
          fallback_fuzzy = []\<rparr>"
proof -
  have e: "embed_query quads ''abd'' = Inr [0]" by (simp add: quads_def)
  have p: "length (products quads) = 4" "top_k quads = 5" "minimal_distance quads = 1"
    by (simp_all add: quads_def)
  have t: "slice_to (top_k quads) (argsort [1 / 2, 1 / 2, 0, 0]) = [i0, i1, i2, i3]"
    by (simp add: assms(1) p slice_to_def)
  have d: "\<forall>i\<in>set [i0, i1, i2, i3]. i < length [1 / 2, 1 / 2, 0, 0 :: real] \<and> i < length (products quads)"
    using assms(2-5) by (simp add: p)
  have f: "filter (\<lambda>i. [1 / 2, 1 / 2, 0, 0 :: real] ! i < 1) [i0, i1, i2, i3] = [i0, i1, i2, i3]"
  proof -
    have "[1 / 2, 1 / 2, 0, 0 :: real] ! i < 1" if "i < 4" for i
      using that by (auto simp: less_Suc_eq numeral_eq_Suc nth_Cons')
    then show ?thesis using assms(2-5) by simp
  qed
  have sl: "semantic_loop (products quads) [1 / 2, 1 / 2, 0, 0] (minimal_distance quads)
        (slice_to (top_k quads) (argsort [1 / 2, 1 / 2, 0, 0])) [] =
      (map (semantic_of (products quads) [1 / 2, 1 / 2, 0, 0]) [i0, i1, i2, i3], None)"
    unfolding t semantic_loop_in_range[OF d] p(3) f by simp
  show ?thesis
    unfolding search_unfold strip_ab_plain quads_correct
    by (simp add: try_body_def e quads_dists sl del: list.map)
qed

text \<open>
  Against claim C1: a store of four products, the first two at distance 0.5 from the
  query vector, the last two at distance 0. The compare-exchange network returns the
  indices 3, 2, 1, 0: the matches are in order of distance, and within each pair of
  equal distances the later product of the store comes first.
\<close>

theorem tie_order_counterexample:
  "argsort_ok argsort_simd
   \<and> row_distances (vectors quads) [0] = Inr [1 / 2, 1 / 2, 0, 0]
   \<and> argsort_simd [1 / 2, 1 / 2, 0, 0] = [3, 2, 1, 0]
   \<and> search_similar_products argsort_simd quads ''ab'' =
     Inr \<lparr>consult_original = ''ab'', consult_used = ''abd'',
          semantics = [\<lparr>id_key = 4, code = ''EAN4'', description = ''uvw'', similarity = 100, distance = 0\<rparr>,
                       \<lparr>id_key = 3, code = ''EAN3'', description = ''xyz'', similarity = 100, distance = 0\<rparr>,
                       \<lparr>id_key = 2, code = ''EAN2'', description = ''abd'', similarity = 6667 / 100,
                        distance = 1 / 2\<rparr>,
                       \<lparr>id_key = 1, code = ''EAN1'', description = ''abc'', similarity = 6667 / 100,
                        distance = 1 / 2\<rparr>],
          fallback_fuzzy = []\<rparr>"
proof -
  have a: "argsort_simd [1 / 2, 1 / 2, 0, 0] = [3, 2, 1, 0]" by code_simp
  have "search_similar_products argsort_simd quads ''ab'' =
     Inr \<lparr>consult_original = ''ab'', consult_used = ''abd'',
          semantics = map (semantic_of (products quads) [1 / 2, 1 / 2, 0, 0]) [3, 2, 1, 0],
          fallback_fuzzy = []\<rparr>"
    by (rule quads_search[of argsort_simd 3 2 1 0, OF a]) simp_all
  then show ?thesis
    using argsort_simd_ok quads_dists a
    by (simp add: semantic_of_def quads_rounding) (simp add: quads_def)
qed

text \<open>
  Claim C1, amended. For an \<open>argsort\<close> that meets NumPy's contract, a store with as
  many products as vectors and a \<open>top_k\<close> that is not negative, the semantic matches of
  a search are at most \<open>top_k\<close>, come from distinct store indices whose unrounded
  distance is below \<open>minimal_distance\<close>, and are in order of non-decreasing distance,
  unrounded and rounded. Nothing is said of the order of equal distances.
\<close>

theorem semantic_ranking:
  assumes "argsort_ok argsort" and "length (products self) = length (vectors self)"
    and "0 \<le> top_k self" and "search_similar_products argsort self q = Inr r"
  shows "length (semantics r) \<le> nat (top_k self) \<and> sorted (map distance (semantics r))
    \<and> (semantics r = [] \<or>
        (\<exists>emb dists idxs. embed_query self (consult_used r) = Inr emb
           \<and> row_distances (vectors self) emb = Inr dists
           \<and> semantics r = map (semantic_of (products self) dists) idxs
           \<and> distinct idxs
           \<and> (\<forall>i\<in>set idxs. i < length dists \<and> dists ! i < minimal_distance self)
           \<and> sorted (map (\<lambda>i. dists ! i) idxs)))"
proof -
  let ?dc = "correct_input self (strip q)"
  let ?res = "empty_results self q"
  have r: "r = fst (try_body argsort self ?dc ?res)"
    using assms(4) by (simp add: search_unfold')
  have u: "consult_used r = ?dc"
    using try_body_queries[of argsort self ?dc ?res] by (simp add: r empty_results_def)
  have e: "semantics ?res = []" by (simp add: empty_results_def)
  show ?thesis
  proof (cases "embed_query self ?dc")
    case (Inl ex)
    then show ?thesis by (simp add: r try_body_embed_fails e)
  next
    case (Inr emb)
    note emb = this
    show ?thesis
    proof (cases "row_distances (vectors self) emb")
      case (Inl ex)
      then show ?thesis using emb by (simp add: r try_body_distances_fail e)
    next
      case (Inr dists)
      define idxs where "idxs = filter (\<lambda>i. dists ! i < minimal_distance self)
            (slice_to (top_k self) (argsort dists))"
      have sem: "semantics r = map (semantic_of (products self) dists) idxs"
        unfolding r try_body_ranked[OF assms(1,2) emb Inr] idxs_def by (simp add: Let_def)
      have p: "length idxs \<le> nat (top_k self)" "distinct idxs"
        "\<forall>i\<in>set idxs. i < length dists \<and> dists ! i < minimal_distance self"
        "sorted (map (\<lambda>i. dists ! i) idxs)"
        using selected_indices[OF assms(1,3) idxs_def] by simp_all
      have "sorted (map distance (semantics r))" unfolding sem using p(4) by (rule sorted_rounded)
      moreover have "length (semantics r) \<le> nat (top_k self)" using p(1) by (simp add: sem)
      moreover have "\<exists>emb dists idxs. embed_query self (consult_used r) = Inr emb
           \<and> row_distances (vectors self) emb = Inr dists
           \<and> semantics r = map (semantic_of (products self) dists) idxs
           \<and> distinct idxs
           \<and> (\<forall>i\<in>set idxs. i < length dists \<and> dists ! i < minimal_distance self)
           \<and> sorted (map (\<lambda>i. dists ! i) idxs)"
        unfolding u using emb Inr sem p(2,3,4) by blast
      ultimately show ?thesis by simp
    qed
  qed
qed

theorem semantic_ranking_witness:
  "argsort_ok argsort_stable \<and> length (products quads) = length (vectors quads) \<and> 0 \<le> top_k quads
   \<and> search_similar_products argsort_stable quads ''ab'' =
     Inr \<lparr>consult_original = ''ab'', consult_used = ''abd'',
          semantics = [\<lparr>id_key = 3, code = ''EAN3'', description = ''xyz'', similarity = 100, distance = 0\<rparr>,
                       \<lparr>id_key = 4, code = ''EAN4'', description = ''uvw'', similarity = 100, distance = 0\<rparr>,
                       \<lparr>id_key = 1, code = ''EAN1'', description = ''abc'', similarity = 6667 / 100,
                        distance = 1 / 2\<rparr>,
                       \<lparr>id_key = 2, code = ''EAN2'', description = ''abd'', similarity = 6667 / 100,
                        distance = 1 / 2\<rparr>],
          fallback_fuzzy = []\<rparr>
   \<and> (4 :: nat) \<le> nat (top_k quads)
   \<and> sorted [0, 0, 1 / 2, 1 / 2 :: real]"
proof -
  have a: "argsort_stable [1 / 2, 1 / 2, 0, 0] = [2, 3, 0, 1]" by code_simp
  have "search_similar_products argsort_stable quads ''ab'' =
     Inr \<lparr>consult_original = ''ab'', consult_used = ''abd'',
          semantics = map (semantic_of (products quads) [1 / 2, 1 / 2, 0, 0]) [2, 3, 0, 1],
          fallback_fuzzy = []\<rparr>"
    by (rule quads_search[of argsort_stable 2 3 0 1, OF a]) simp_all
  then have s: "search_similar_products argsort_stable quads ''ab'' =
     Inr \<lparr>consult_original = ''ab'', consult_used = ''abd'',
          semantics = [\<lparr>id_key = 3, code = ''EAN3'', description = ''xyz'', similarity = 100, distance = 0\<rparr>,
                       \<lparr>id_key = 4, code = ''EAN4'', description = ''uvw'', similarity = 100, distance = 0\<rparr>,
                       \<lparr>id_key = 1, code = ''EAN1'', description = ''abc'', similarity = 6667 / 100,
                        distance = 1 / 2\<rparr>,
                       \<lparr>id_key = 2, code = ''EAN2'', description = ''abd'', similarity = 6667 / 100,
                        distance = 1 / 2\<rparr>],
          fallback_fuzzy = []\<rparr>"
    by (simp add: semantic_of_def quads_rounding) (simp add: quads_def)
  have h: "length (products quads) = length (vectors quads)" "0 \<le> top_k quads"
    by (simp_all add: quads_def)
  from semantic_ranking[OF argsort_stable_ok h s]
  have "(4 :: nat) \<le> nat (top_k quads) \<and> sorted [0, 0, 1 / 2, 1 / 2 :: real]" by simp
  then show ?thesis using argsort_stable_ok h s by simp
qed

subsection \<open>The fuzzy fallback\<close>

text \<open>The match built for the store index \<open>i\<close>.\<close>

definition fuzzy_of :: "product list \<Rightarrow> string \<Rightarrow> nat \<Rightarrow> fuzzy_match" where
  "fuzzy_of prods dc i =
     \<lparr>id_key = id_key (prods ! i), code = code (prods ! i), description = description (prods ! i),
      score_fuzzy = round_to (token_sort_ratio dc (description (prods ! i))) 2\<rparr>"

lemma lcs_len_le: "lcs_len xs ys \<le> length xs \<and> lcs_len xs ys \<le> length ys"
  by (induction xs ys rule: lcs_len.induct) auto

lemma fuzz_ratio_range: "0 \<le> fuzz_ratio s1 s2 \<and> fuzz_ratio s1 s2 \<le> 100"
proof (cases "length s1 + length s2 = 0")
  case True
  then show ?thesis by (simp add: fuzz_ratio_def indel_normalized_distance_def)
next
  case False
  define d where "d = real (indel_distance s1 s2) / real (length s1 + length s2)"
  have "real (indel_distance s1 s2) \<le> real (length s1 + length s2)"
    unfolding indel_distance_def by (rule of_nat_mono) simp
  then have "d \<le> 1"
    unfolding d_def using False by (simp add: divide_le_eq)
  moreover have "0 \<le> d" unfolding d_def by simp
  moreover have "fuzz_ratio s1 s2 = (1 - d) * 100"
    using False by (simp add: fuzz_ratio_def indel_normalized_distance_def Let_def d_def)
  ultimately show ?thesis by simp
qed

lemma token_sort_ratio_range: "0 \<le> token_sort_ratio s1 s2 \<and> token_sort_ratio s1 s2 \<le> 100"
  unfolding token_sort_ratio_def by (rule fuzz_ratio_range)

lemma insort_key_map:
  "insort_key f (g x) (map g ys) = map g (insort_key (\<lambda>y. f (g y)) x ys)"
  by (induction ys) simp_all

lemma sort_key_map: "sort_key f (map g xs) = map g (sort_key (\<lambda>y. f (g y)) xs)"
  by (induction xs) (simp_all add: insort_key_map)

lemma ties_in_order:
  fixes key :: "nat \<Rightarrow> real"
  shows "sorted_wrt (\<lambda>i j. key i \<le> key j) xs \<Longrightarrow>
   (\<And>k. sorted_wrt (<) (filter (\<lambda>y. key y = k) xs)) \<Longrightarrow>
   sorted_wrt (\<lambda>i j. key i < key j \<or> (key i = key j \<and> i < j)) (xs :: nat list)"
proof (induction xs)
  case Nil
  then show ?case by simp
next
  case (Cons x xs)
  have tl: "sorted_wrt (<) (filter (\<lambda>y. key y = k) xs)" for k
    using Cons.prems(2)[of k] by (cases "key x = k") simp_all
  have "key x < key y \<or> (key x = key y \<and> x < y)" if "y \<in> set xs" for y
  proof (cases "key x = key y")
    case True
    have "sorted_wrt (<) (x # filter (\<lambda>z. key z = key x) xs)"
      using Cons.prems(2)[of "key x"] by simp
    then show ?thesis using that True by auto
  next
    case False
    then show ?thesis using Cons.prems(1) that by auto
  qed
  moreover have "sorted_wrt (\<lambda>i j. key i < key j \<or> (key i = key j \<and> i < j)) xs"
    using Cons.IH Cons.prems(1) tl by simp
  ultimately show ?case by simp
qed

lemma stable_sort_order:
  fixes key :: "nat \<Rightarrow> real"
  shows "sorted_wrt (\<lambda>i j. key i < key j \<or> (key i = key j \<and> i < j)) (sort_key key [0..<n])"
proof (rule ties_in_order)
  show "sorted_wrt (\<lambda>i j. key i \<le> key j) (sort_key key [0..<n])"
    using sorted_sort_key[of key "[0..<n]"] by (simp add: sorted_map)
next
  fix k
  have "sorted_wrt (<) [0..<n]" by (simp add: sorted_wrt_upt)
  then have "sorted_wrt (<) (filter (\<lambda>y. key y = k) [0..<n])" by (rule sorted_wrt_filter)
  then show "sorted_wrt (<) (filter (\<lambda>y. key y = k) (sort_key key [0..<n]))"
    by (simp only: sort_key_stable)
qed

lemma fuzzy_fallback_indices:
  "fuzzy_fallback self dc =
     map (fuzzy_of (products self) dc)
       (slice_to (top_k self)
          (sort_key (\<lambda>i. - token_sort_ratio dc (description (products self ! i)))
             [0..<length (products self)]))"
proof -
  let ?ps = "products self"
  let ?g = "\<lambda>i. (?ps ! i, token_sort_ratio dc (description (?ps ! i)))"
  have "map (\<lambda>product. (product, token_sort_ratio dc (description product))) ?ps
      = map (\<lambda>product. (product, token_sort_ratio dc (description product))) (map ((!) ?ps) [0..<length ?ps])"
    by (simp only: map_nth)
  also have "\<dots> = map ?g [0..<length ?ps]" by simp
  finally have m: "map (\<lambda>product. (product, token_sort_ratio dc (description product))) ?ps
      = map ?g [0..<length ?ps]" .
  have s: "slice_to k (map h xs) = map h (slice_to k xs)" for k and h :: "nat \<Rightarrow> product \<times> real" and xs
    by (simp add: slice_to_def take_map)
  show ?thesis
    unfolding fuzzy_fallback_def Let_def m sort_key_map s
    by (simp add: fuzzy_of_def)
qed

text \<open>
  Claim C6. For a \<open>top_k\<close> that is not negative, the fuzzy fallback returns the
  matches of the first \<open>top_k\<close> store indices (all of them when the store is smaller)
  in order of descending score, indices of equal score in store order. It returns at
  most \<open>top_k\<close> matches, their rounded scores do not increase along the list, and each
  lies between 0 and 100. A search returns this list or the empty list.
\<close>

theorem fuzzy_fallback_ranking:
  assumes "0 \<le> top_k self"
  shows "\<exists>idxs.
     fuzzy_fallback self dc = map (fuzzy_of (products self) dc) idxs
     \<and> length idxs = min (nat (top_k self)) (length (products self))
     \<and> distinct idxs \<and> set idxs \<subseteq> {..<length (products self)}
     \<and> sorted_wrt (\<lambda>i j.
            token_sort_ratio dc (description (products self ! j))
              < token_sort_ratio dc (description (products self ! i))
            \<or> (token_sort_ratio dc (description (products self ! j))
                  = token_sort_ratio dc (description (products self ! i)) \<and> i < j)) idxs
     \<and> length (fuzzy_fallback self dc) \<le> nat (top_k self)
     \<and> sorted (rev (map score_fuzzy (fuzzy_fallback self dc)))
     \<and> (\<forall>m\<in>set (fuzzy_fallback self dc). 0 \<le> score_fuzzy m \<and> score_fuzzy m \<le> 100)
     \<and> (\<forall>argsort q r. search_similar_products argsort self q = Inr r \<longrightarrow>
            fallback_fuzzy r = [] \<or> fallback_fuzzy r = fuzzy_fallback self (consult_used r))"
proof -
  let ?ps = "products self"
  let ?score = "\<lambda>i. token_sort_ratio dc (description (?ps ! i))"
  let ?all = "sort_key (\<lambda>i. - ?score i) [0..<length ?ps]"
  define idxs where "idxs = take (nat (top_k self)) ?all"
  have f: "fuzzy_fallback self dc = map (fuzzy_of ?ps dc) idxs"
    unfolding fuzzy_fallback_indices idxs_def using assms by (simp add: slice_to_nonneg)
  have l: "length idxs = min (nat (top_k self)) (length ?ps)"
    by (simp add: idxs_def min.commute)
  have "mset ?all = mset [0..<length ?ps]" by simp
  then have da: "distinct ?all" and sa: "set ?all = {..<length ?ps}"
    using mset_eq_imp_distinct_iff[of ?all "[0..<length ?ps]"] mset_eq_setD[of ?all "[0..<length ?ps]"]
    by (simp_all add: atLeast0LessThan)
  have d: "distinct idxs" unfolding idxs_def using da by (rule distinct_take)
  have s: "set idxs \<subseteq> {..<length ?ps}" unfolding idxs_def using sa set_take_subset by fast
  have "sorted_wrt (\<lambda>i j. - ?score i < - ?score j \<or> (- ?score i = - ?score j \<and> i < j)) ?all"
    by (rule stable_sort_order)
  then have oa: "sorted_wrt (\<lambda>i j. ?score j < ?score i \<or> (?score j = ?score i \<and> i < j)) ?all"
    by (rule sorted_wrt_mono_rel[rotated]) auto
  then have o: "sorted_wrt (\<lambda>i j. ?score j < ?score i \<or> (?score j = ?score i \<and> i < j)) idxs"
    unfolding idxs_def by (rule sorted_wrt_take)
  then have "sorted_wrt (\<lambda>i j. round_to (?score j) 2 \<le> round_to (?score i) 2) idxs"
    by (rule sorted_wrt_mono_rel[rotated]) (auto intro: round_to_mono)
  then have "sorted_wrt (\<lambda>x y. y \<le> x) (map (\<lambda>i. round_to (?score i) 2) idxs)"
    by (simp add: sorted_wrt_map)
  then have "sorted (rev (map (\<lambda>i. round_to (?score i) 2) idxs))"
    by (simp add: sorted_wrt_rev)
  then have r: "sorted (rev (map score_fuzzy (fuzzy_fallback self dc)))"
    by (simp add: f fuzzy_of_def comp_def)
  have n: "length (fuzzy_fallback self dc) \<le> nat (top_k self)" by (simp add: f l)
  have b: "\<forall>m\<in>set (fuzzy_fallback self dc). 0 \<le> score_fuzzy m \<and> score_fuzzy m \<le> 100"
    using round_to_range[of "?score i" 2 for i] token_sort_ratio_range[of dc]
    by (auto simp: f fuzzy_of_def)
  have c: "fallback_fuzzy r = [] \<or> fallback_fuzzy r = fuzzy_fallback self (consult_used r)"
    if "search_similar_products argsort self q = Inr r" for argsort q r
  proof -
    have "r = fst (try_body argsort self (correct_input self (strip q)) (empty_results self q))"
      using that by (simp add: search_unfold')
    then show ?thesis
      by (simp add: try_body_def empty_results_def Let_def split: sum.splits prod.splits option.splits)
  qed
  show ?thesis
    by (rule exI[of _ idxs]) (use f l d s o n r b c in blast)
qed

definition strict_shop :: searcher where
  "strict_shop = shop\<lparr>minimal_distance := 0\<rparr>"

lemma strict_shop_fuzzy:
  "fuzzy_fallback strict_shop ''abd'' =
       [\<lparr>id_key = 2, code = ''EAN2'', description = ''abd'', score_fuzzy = 100\<rparr>,
        \<lparr>id_key = 1, code = ''EAN1'', description = ''abc'', score_fuzzy = 6667 / 100\<rparr>]"
  unfolding strict_shop_def shop_def by code_simp

lemma strict_shop_search:
  "search_similar_products argsort_stable strict_shop '' ab '' =
     Inr \<lparr>consult_original = ''ab'', consult_used = ''abd'', semantics = [],
          fallback_fuzzy =
            [\<lparr>id_key = 2, code = ''EAN2'', description = ''abd'', score_fuzzy = 100\<rparr>,
             \<lparr>id_key = 1, code = ''EAN1'', description = ''abc'', score_fuzzy = 6667 / 100\<rparr>]\<rparr>"
proof -
  have c: "correct_input strict_shop ''ab'' = ''abd''"
    using correct_input_products[of strict_shop shop "''ab''"] by (simp add: strict_shop_def shop_correct)
  have e: "embed_query strict_shop ''abd'' = Inr [0, 0]" by (simp add: strict_shop_def shop_def)
  have d: "row_distances (vectors strict_shop) [0, 0] = Inr [0, 2]"
    using shop_dists by (simp add: strict_shop_def)
  have p: "length (products strict_shop) = 2" "top_k strict_shop = 5" "minimal_distance strict_shop = 0"
    by (simp_all add: strict_shop_def shop_def)
  show ?thesis
    unfolding search_unfold strip_ab c
    by (simp add: try_body_def e d argsort_stable_02 p slice_to_def strict_shop_fuzzy)
qed

theorem fuzzy_fallback_ranking_witness:
  "0 \<le> top_k shop
   \<and> fuzzy_fallback shop ''abd'' =
       [\<lparr>id_key = 2, code = ''EAN2'', description = ''abd'', score_fuzzy = 100\<rparr>,
        \<lparr>id_key = 1, code = ''EAN1'', description = ''abc'', score_fuzzy = 6667 / 100\<rparr>]
   \<and> length (fuzzy_fallback shop ''abd'') \<le> nat (top_k shop)
   \<and> sorted (rev (map score_fuzzy (fuzzy_fallback shop ''abd'')))
   \<and> search_similar_products argsort_stable strict_shop '' ab '' =
     Inr \<lparr>consult_original = ''ab'', consult_used = ''abd'', semantics = [],
          fallback_fuzzy = fuzzy_fallback strict_shop ''abd''\<rparr>"
proof -
  have h: "0 \<le> top_k shop" by (simp add: shop_def)
  have v: "fuzzy_fallback shop ''abd'' =
       [\<lparr>id_key = 2, code = ''EAN2'', description = ''abd'', score_fuzzy = 100\<rparr>,
        \<lparr>id_key = 1, code = ''EAN1'', description = ''abc'', score_fuzzy = 6667 / 100\<rparr>]"
    unfolding shop_def by code_simp
  from fuzzy_fallback_ranking[OF h, of "''abd''"]
  have a: "length (fuzzy_fallback shop ''abd'') \<le> nat (top_k shop)
     \<and> sorted (rev (map score_fuzzy (fuzzy_fallback shop ''abd'')))" by blast
  have h': "0 \<le> top_k strict_shop" by (simp add: strict_shop_def shop_def)
  from fuzzy_fallback_ranking[OF h', of "''abd''"]
  have "\<forall>argsort q r. search_similar_products argsort strict_shop q = Inr r \<longrightarrow>
            fallback_fuzzy r = [] \<or> fallback_fuzzy r = fuzzy_fallback strict_shop (consult_used r)"
    by blast
  from this[rule_format, OF strict_shop_search]
  have "search_similar_products argsort_stable strict_shop '' ab '' =
     Inr \<lparr>consult_original = ''ab'', consult_used = ''abd'', semantics = [],
          fallback_fuzzy = fuzzy_fallback strict_shop ''abd''\<rparr>"
    using strict_shop_search by auto
  then show ?thesis using h v a by simp
qed

subsection \<open>The correction of the input\<close>

text \<open>
  The blocks of \<open>get_matching_blocks\<close> lie side by side in both sequences, so their
  total size is at most the number of elements the two sequences have in common as
  multisets, which is what \<open>quick_ratio\<close> counts. \<open>segment xs lo hi\<close> is \<open>xs[lo:hi]\<close>.
\<close>

definition block_sizes :: "best list \<Rightarrow> nat" where
  "block_sizes blocks = sum_list (map (\<lambda>triple. snd (snd triple)) blocks)"

definition segment :: "'a list \<Rightarrow> nat \<Rightarrow> nat \<Rightarrow> 'a list" where
  "segment xs lo hi = take (hi - lo) (drop lo xs)"

definition window_ok :: "'a list \<Rightarrow> 'a list \<Rightarrow> window \<Rightarrow> bool" where
  "window_ok a b w \<longleftrightarrow>
     (case w of (alo, ahi, blo, bhi) \<Rightarrow> alo \<le> ahi \<and> ahi \<le> length a \<and> blo \<le> bhi \<and> bhi \<le> length b)"

definition window_cap :: "'a list \<Rightarrow> 'a list \<Rightarrow> window \<Rightarrow> nat" where
  "window_cap a b w =
     (case w of (alo, ahi, blo, bhi) \<Rightarrow> size (mset (segment a alo ahi) \<inter># mset (segment b blo bhi)))"

lemma segment_split:
  "lo \<le> mid \<Longrightarrow> mid \<le> hi \<Longrightarrow> segment xs lo hi = segment xs lo mid @ segment xs mid hi"
proof -
  assume a: "lo \<le> mid" "mid \<le> hi"
  have "take (hi - lo) (drop lo xs) = take (mid - lo) (drop lo xs) @ take (hi - mid) (drop (mid - lo) (drop lo xs))"
    using a take_add[of "mid - lo" "hi - mid" "drop lo xs"] by simp
  then show ?thesis using a by (simp add: segment_def)
qed

lemma segment_equal:
  assumes "i + k \<le> length a" "j + k \<le> length b" "\<forall>t<k. a ! (i + t) = b ! (j + t)"
  shows "segment a i (i + k) = segment b j (j + k)"
proof (rule nth_equalityI)
  show "length (segment a i (i + k)) = length (segment b j (j + k))"
    using assms(1,2) by (simp add: segment_def)
next
  fix t assume "t < length (segment a i (i + k))"
  then have t: "t < k" using assms(1) by (simp add: segment_def)
  then show "segment a i (i + k) ! t = segment b j (j + k) ! t"
    using assms by (simp add: segment_def)
qed

lemma inter_superadditive:
  "size (A1 \<inter># B1) + size C + size (A2 \<inter># B2) \<le> size ((A1 + (C + A2)) \<inter># (B1 + (C + B2)))"
proof -
  have "(A1 \<inter># B1) + (C + (A2 \<inter># B2)) \<subseteq># A1 + (C + A2)"
    by (intro mset_subset_eq_mono_add) simp_all
  moreover have "(A1 \<inter># B1) + (C + (A2 \<inter># B2)) \<subseteq># B1 + (C + B2)"
    by (intro mset_subset_eq_mono_add) simp_all
  ultimately have "(A1 \<inter># B1) + (C + (A2 \<inter># B2)) \<subseteq># (A1 + (C + A2)) \<inter># (B1 + (C + B2))"
    by simp
  from size_mset_mono[OF this] show ?thesis by simp
qed

lemma window_split_cap:
  assumes w: "window_ok a b (alo, ahi, blo, bhi)"
    and inv: "best_inv a b alo blo bhi ahi (i, j, k)" and k: "k \<noteq> 0"
  shows "window_cap a b (alo, i, blo, j) + k + window_cap a b (i + k, ahi, j + k, bhi)
           \<le> window_cap a b (alo, ahi, blo, bhi)"
    and "window_ok a b (alo, i, blo, j)" and "window_ok a b (i + k, ahi, j + k, bhi)"
proof -
  from inv k have b: "alo \<le> i" "blo \<le> j" "i + k \<le> ahi" "j + k \<le> bhi"
    "\<forall>t<k. a ! (i + t) = b ! (j + t)"
    by (simp_all add: best_inv_def)
  from w have wb: "ahi \<le> length a" "bhi \<le> length b" by (simp_all add: window_ok_def)
  have sa: "segment a alo ahi = segment a alo i @ segment a i (i + k) @ segment a (i + k) ahi"
    using segment_split[of alo i ahi a] segment_split[of i "i + k" ahi a] b by simp
  have sb: "segment b blo bhi = segment b blo j @ segment b j (j + k) @ segment b (j + k) bhi"
    using segment_split[of blo j bhi b] segment_split[of j "j + k" bhi b] b by simp
  have eq: "segment a i (i + k) = segment b j (j + k)"
    using b wb by (intro segment_equal) simp_all
  have len: "length (segment b j (j + k)) = k" using b wb by (simp add: segment_def)
  have cap: "window_cap a b (alo, ahi, blo, bhi) =
      size ((mset (segment a alo i) + (mset (segment b j (j + k)) + mset (segment a (i + k) ahi)))
            \<inter># (mset (segment b blo j) + (mset (segment b j (j + k)) + mset (segment b (j + k) bhi))))"
    by (simp only: window_cap_def prod.case sa sb eq mset_append)
  show "window_cap a b (alo, i, blo, j) + k + window_cap a b (i + k, ahi, j + k, bhi)
           \<le> window_cap a b (alo, ahi, blo, bhi)"
    unfolding cap
    using inter_superadditive[of "mset (segment a alo i)" "mset (segment b blo j)" "mset (segment b j (j + k))"
        "mset (segment a (i + k) ahi)" "mset (segment b (j + k) bhi)"]
    by (simp add: window_cap_def len)
  show "window_ok a b (alo, i, blo, j)" "window_ok a b (i + k, ahi, j + k, bhi)"
    using b wb by (simp_all add: window_ok_def)
qed

lemma block_sizes_append: "block_sizes (xs @ ys) = block_sizes xs + block_sizes ys"
  by (simp add: block_sizes_def)

lemma matching_blocks_loop_bound:
  "\<forall>w\<in>set queue. window_ok a b w \<Longrightarrow>
   block_sizes (matching_blocks_loop a b queue acc)
     \<le> block_sizes acc + sum_list (map (window_cap a b) queue)"
proof (induction a b queue acc rule: matching_blocks_loop.induct)
  case (1 a b matching_blocks)
  then show ?case by (simp add: matching_blocks_loop.simps)
next
  case (2 a b alo ahi blo bhi queue matching_blocks)
  obtain i j k where f: "find_longest_match a b alo ahi blo bhi = (i, j, k)"
    by (cases "find_longest_match a b alo ahi blo bhi")
  have inv: "best_inv a b alo blo bhi ahi (i, j, k)"
    using find_longest_match_inv[of a b alo blo bhi ahi] f by simp
  have w: "window_ok a b (alo, ahi, blo, bhi)" and q: "\<forall>w\<in>set queue. window_ok a b w"
    using "2.prems" by simp_all
  show ?case
  proof (cases "k = 0")
    case True
    have "block_sizes (matching_blocks_loop a b queue matching_blocks)
        \<le> block_sizes matching_blocks + sum_list (map (window_cap a b) queue)"
      by (rule "2.IH"(2)[OF f[symmetric] refl]) (use True q in simp_all)
    then show ?thesis using True f by (simp add: matching_blocks_loop.simps)
  next
    case False
    note s = window_split_cap[OF w inv False]
    let ?new = "(if i + k < ahi \<and> j + k < bhi then [(i + k, ahi, j + k, bhi)] else []) @
             (if alo < i \<and> blo < j then [(alo, i, blo, j)] else []) @ queue"
    have ok: "\<forall>w\<in>set ?new. window_ok a b w" using s(2,3) q by auto
    have "sum_list (map (window_cap a b) ?new)
       \<le> window_cap a b (i + k, ahi, j + k, bhi) + window_cap a b (alo, i, blo, j)
           + sum_list (map (window_cap a b) queue)"
      by simp
    moreover have "block_sizes (matching_blocks_loop a b ?new (matching_blocks @ [(i, j, k)]))
        \<le> block_sizes (matching_blocks @ [(i, j, k)]) + sum_list (map (window_cap a b) ?new)"
      by (rule "2.IH"(1)[OF f[symmetric] refl False ok])
    moreover have "block_sizes (matching_blocks @ [(i, j, k)]) = block_sizes matching_blocks + k"
      by (simp add: block_sizes_def)
    ultimately have "block_sizes (matching_blocks_loop a b ?new (matching_blocks @ [(i, j, k)]))
        \<le> block_sizes matching_blocks + (window_cap a b (alo, ahi, blo, bhi)
             + sum_list (map (window_cap a b) queue))"
      using s(1) by linarith
    then show ?thesis using False f by (simp add: matching_blocks_loop.simps)
  qed
qed

lemma block_sizes_collapse:
  "block_sizes (collapse (i1, j1, k1) rest) = k1 + block_sizes rest"
proof (induction rest arbitrary: i1 j1 k1)
  case Nil
  then show ?case by (simp add: block_sizes_def)
next
  case (Cons x rest)
  obtain i2 j2 k2 where x: "x = (i2, j2, k2)" by (cases x)
  show ?case using Cons.IH by (simp add: x block_sizes_def)
qed

lemma block_sizes_sort: "block_sizes (sort blocks) = block_sizes blocks"
proof -
  have "mset (map (\<lambda>triple. snd (snd triple)) (sort blocks)) = mset (map (\<lambda>triple. snd (snd triple)) blocks)"
    by simp
  then have "sum_mset (mset (map (\<lambda>triple. snd (snd triple)) (sort blocks)))
           = sum_mset (mset (map (\<lambda>triple. snd (snd triple)) blocks))" by simp
  then show ?thesis unfolding block_sizes_def by (simp only: sum_mset_sum_list)
qed

lemma segment_whole: "segment xs 0 (length xs) = xs"
  by (simp add: segment_def)

lemma matches_le_common:
  "block_sizes (get_matching_blocks a b) \<le> size (mset a \<inter># mset b)"
proof -
  have "block_sizes (matching_blocks_loop a b [(0, length a, 0, length b)] [])
      \<le> block_sizes [] + sum_list (map (window_cap a b) [(0, length a, 0, length b)])"
    by (rule matching_blocks_loop_bound) (simp add: window_ok_def)
  then have "block_sizes (matching_blocks_loop a b [(0, length a, 0, length b)] []) \<le> size (mset a \<inter># mset b)"
    by (simp add: window_cap_def segment_whole block_sizes_def)
  then show ?thesis
    by (simp add: get_matching_blocks_def Let_def block_sizes_append block_sizes_collapse block_sizes_sort)
       (simp add: block_sizes_def)
qed

lemma quick_ratio_loop_common:
  "\<forall>x. count M x = nat (case avail x of Some n \<Rightarrow> n | None \<Rightarrow> int (fullbcount x)) \<Longrightarrow>
   quick_ratio_loop fullbcount a avail matches = matches + size (mset a \<inter># M)"
proof (induction a arbitrary: avail matches M)
  case Nil
  then show ?case by simp
next
  case (Cons elt rest)
  define numb where "numb = (case avail elt of Some n \<Rightarrow> n | None \<Rightarrow> int (fullbcount elt))"
  have c: "count M elt = nat numb" using Cons.prems by (simp add: numb_def)
  have inv: "\<forall>x. count (M - {#elt#}) x =
      nat (case (avail(elt \<mapsto> numb - 1)) x of Some n \<Rightarrow> n | None \<Rightarrow> int (fullbcount x))"
    using Cons.prems c by auto
  have step: "quick_ratio_loop fullbcount (elt # rest) avail matches =
      quick_ratio_loop fullbcount rest (avail(elt \<mapsto> numb - 1)) (if 0 < numb then matches + 1 else matches)"
    by (simp add: numb_def Let_def)
  have ih: "quick_ratio_loop fullbcount rest (avail(elt \<mapsto> numb - 1)) m' =
      m' + size (mset rest \<inter># (M - {#elt#}))" for m'
    by (rule Cons.IH[OF inv])
  show ?case
  proof (cases "0 < numb")
    case True
    then have "elt \<in># M" using c by (simp add: count_greater_zero_iff[symmetric] del: count_greater_zero_iff)
    then have "mset (elt # rest) \<inter># M = add_mset elt (mset rest \<inter># (M - {#elt#}))"
      by (simp add: inter_add_left2)
    then have "size (mset (elt # rest) \<inter># M) = Suc (size (mset rest \<inter># (M - {#elt#})))"
      by simp
    then show ?thesis unfolding step ih using True by simp
  next
    case False
    then have n: "elt \<notin># M" using c by (simp add: count_eq_zero_iff[symmetric] del: count_eq_zero_iff)
    then have "mset (elt # rest) \<inter># M = mset rest \<inter># (M - {#elt#})"
      by (simp add: inter_add_left1)
    then show ?thesis unfolding step ih using False by simp
  qed
qed

lemma quick_matches_common:
  "quick_ratio_loop (count_list b) a Map.empty 0 = size (mset a \<inter># mset b)"
  using quick_ratio_loop_common[where M = "mset b" and avail = Map.empty
      and fullbcount = "count_list b" and a = a and matches = 0]
  by (simp add: count_mset)

lemma calculate_ratio_mono: "m \<le> m' \<Longrightarrow> calculate_ratio m l \<le> calculate_ratio m' l"
  by (simp add: calculate_ratio_def divide_right_mono)

lemma ratio_le_quick_ratio: "ratio a b \<le> quick_ratio a b"
  using matches_le_common[of a b]
  by (simp add: ratio_def quick_ratio_def Let_def quick_matches_common calculate_ratio_mono
      flip: block_sizes_def)

lemma quick_ratio_le_real_quick_ratio: "quick_ratio a b \<le> real_quick_ratio a b"
proof -
  have "size (mset a \<inter># mset b) \<le> size (mset a)" "size (mset a \<inter># mset b) \<le> size (mset b)"
    by (rule size_mset_mono, simp)+
  then have "size (mset a \<inter># mset b) \<le> min (length a) (length b)" by simp
  then show ?thesis
    by (simp add: quick_ratio_def real_quick_ratio_def Let_def quick_matches_common calculate_ratio_mono)
qed

lemma close_candidates_eq:
  "close_candidates word possibilities =
     map (\<lambda>x. (ratio x word, x)) (filter (\<lambda>x. cutoff \<le> ratio x word) possibilities)"
proof -
  have "(cutoff \<le> real_quick_ratio x word \<and> cutoff \<le> quick_ratio x word \<and> cutoff \<le> ratio x word)
      \<longleftrightarrow> cutoff \<le> ratio x word" for x
    using ratio_le_quick_ratio[of x word] quick_ratio_le_real_quick_ratio[of x word] by auto
  then have "close_candidates word possibilities =
      concat (map (\<lambda>x. if cutoff \<le> ratio x word then [(ratio x word, x)] else []) possibilities)"
    by (simp add: close_candidates_def)
  also have "\<dots> = map (\<lambda>x. (ratio x word, x)) (filter (\<lambda>x. cutoff \<le> ratio x word) possibilities)"
    by (induction possibilities) simp_all
  finally show ?thesis .
qed

lemma tuple_gt_less: "tuple_gt p q \<longleftrightarrow> q < p"
  by (cases p; cases q) (auto simp: tuple_gt_def)

lemma max_from_greatest:
  "max_from m rest \<in> set (m # rest) \<and> (\<forall>e\<in>set (m # rest). e \<le> max_from m rest)"
proof (induction rest arbitrary: m)
  case Nil
  then show ?case by simp
next
  case (Cons item rest)
  have s: "max_from m (item # rest) = max_from (max m item) rest"
    by (auto simp: tuple_gt_less max_def)
  have ih: "max_from (max m item) rest \<in> set (max m item # rest)"
    "\<forall>e\<in>set (max m item # rest). e \<le> max_from (max m item) rest"
    using Cons.IH[of "max m item"] by simp_all
  have "max m item \<le> max_from (max m item) rest" using ih(2) by simp
  then have "m \<le> max_from (max m item) rest" "item \<le> max_from (max m item) rest"
    by (simp_all add: max.coboundedI1 max.coboundedI2 max.bounded_iff)
  moreover have "max m item = m \<or> max m item = item" by (auto simp: max_def)
  ultimately show ?case unfolding s using ih by auto
qed

lemma get_close_matches_none:
  "\<forall>x\<in>set possibilities. ratio x word < cutoff \<Longrightarrow> get_close_matches word possibilities = []"
proof -
  assume "\<forall>x\<in>set possibilities. ratio x word < cutoff"
  then have "filter (\<lambda>x. cutoff \<le> ratio x word) possibilities = []"
    by (auto simp: filter_empty_conv)
  then have "close_candidates word possibilities = []"
    by (simp add: close_candidates_eq)
  then show ?thesis by (simp add: get_close_matches_def nlargest1_def)
qed

lemma get_close_matches_best:
  assumes "\<exists>x\<in>set possibilities. cutoff \<le> ratio x word"
  shows "\<exists>best. get_close_matches word possibilities = [best] \<and> best \<in> set possibilities
     \<and> cutoff \<le> ratio best word
     \<and> (\<forall>y\<in>set possibilities. ratio y word \<le> ratio best word
            \<and> (ratio y word = ratio best word \<longrightarrow> y \<le> best))"
proof -
  let ?cs = "close_candidates word possibilities"
  have set_cs: "set ?cs = {(ratio x word, x) | x. x \<in> set possibilities \<and> cutoff \<le> ratio x word}"
    by (auto simp: close_candidates_eq)
  then have "?cs \<noteq> []" using assms by auto
  then obtain c cs where cs: "?cs = c # cs" by (cases ?cs) auto
  define top where "top = max_from c cs"
  have g: "get_close_matches word possibilities = [snd top]"
    by (simp add: get_close_matches_def nlargest1_def cs top_def)
  have mem: "top \<in> set ?cs" and ge: "\<forall>e\<in>set ?cs. e \<le> top"
    using max_from_greatest[of c cs] unfolding cs top_def by simp_all
  from mem have t: "snd top \<in> set possibilities" "cutoff \<le> ratio (snd top) word"
    "top = (ratio (snd top) word, snd top)"
    unfolding set_cs by auto
  have "ratio y word \<le> ratio (snd top) word \<and> (ratio y word = ratio (snd top) word \<longrightarrow> y \<le> snd top)"
    if y: "y \<in> set possibilities" for y
  proof (cases "cutoff \<le> ratio y word")
    case True
    then have "(ratio y word, y) \<in> set ?cs" using y unfolding set_cs by auto
    then have "(ratio y word, y) \<le> (ratio (snd top) word, snd top)" using ge t(3) by auto
    then show ?thesis by (auto simp: less_eq_prod_def)
  next
    case False
    then show ?thesis using t(2) by simp
  qed
  then show ?thesis using g t(1,2) by blast
qed

text \<open>
  Against claim C5: the two descriptions of the example store are equally close to
  \<open>ab\<close>, with ratio 0.8. The first encountered is \<open>abc\<close>; the correction is \<open>abd\<close>.
\<close>

theorem first_encountered_counterexample:
  "map description (products shop) = [''abc'', ''abd'']
   \<and> ratio ''abc'' ''ab'' = 4 / 5 \<and> ratio ''abd'' ''ab'' = 4 / 5 \<and> cutoff \<le> 4 / 5
   \<and> correct_input shop ''ab'' = ''abd''"
proof -
  have "ratio ''abc'' ''ab'' = 4 / 5" "ratio ''abd'' ''ab'' = 4 / 5" by code_simp+
  moreover have "map description (products shop) = [''abc'', ''abd'']" by (simp add: shop_def)
  moreover have "cutoff \<le> 4 / 5" by (simp add: cutoff_def)
  ultimately show ?thesis using shop_correct by simp
qed

text \<open>
  Claim C5, amended. When some description has a similarity ratio to the raw string of
  at least 0.6, \<open>_correct_input\<close> returns a description of the store whose ratio is at
  least 0.6 and is the greatest of all; among the descriptions with that greatest ratio
  it returns the greatest string. When no description reaches 0.6 it returns the raw
  string unchanged.
\<close>

theorem correct_input_closest:
  "if \<exists>x\<in>set (map description (products self)). cutoff \<le> ratio x raw
   then correct_input self raw \<in> set (map description (products self))
      \<and> cutoff \<le> ratio (correct_input self raw) raw
      \<and> (\<forall>y\<in>set (map description (products self)).
            ratio y raw \<le> ratio (correct_input self raw) raw
            \<and> (ratio y raw = ratio (correct_input self raw) raw \<longrightarrow> y \<le> correct_input self raw))
   else correct_input self raw = raw"
proof (cases "\<exists>x\<in>set (map description (products self)). cutoff \<le> ratio x raw")
  case True
  from get_close_matches_best[OF True] obtain best where
    b: "get_close_matches raw (map description (products self)) = [best]"
       "best \<in> set (map description (products self))" "cutoff \<le> ratio best raw"
       "\<forall>y\<in>set (map description (products self)). ratio y raw \<le> ratio best raw
            \<and> (ratio y raw = ratio best raw \<longrightarrow> y \<le> best)"
    by blast
  have "correct_input self raw = best" by (simp add: correct_input_def b(1))
  then show ?thesis using True b(2,3,4) by simp
next
  case False
  then have "\<forall>x\<in>set (map description (products self)). ratio x raw < cutoff" by (simp add: not_le)
  then have "get_close_matches raw (map description (products self)) = []"
    by (rule get_close_matches_none)
  then have "correct_input self raw = raw" by (simp add: correct_input_def)
  then show ?thesis using False by simp
qed

theorem correct_input_closest_witness:
  "(\<exists>x\<in>set (map description (products shop)). cutoff \<le> ratio x ''ab'')
   \<and> correct_input shop ''ab'' = ''abd'' \<and> cutoff \<le> ratio ''abd'' ''ab''
   \<and> ratio ''abc'' ''ab'' \<le> ratio ''abd'' ''ab'' \<and> ''abc'' \<le> ''abd''
   \<and> \<not> (\<exists>x\<in>set (map description (products shop)). cutoff \<le> ratio x ''xyz'')
   \<and> correct_input shop ''xyz'' = ''xyz''"
proof -
  have r: "ratio ''abc'' ''ab'' = 4 / 5" "ratio ''abd'' ''ab'' = 4 / 5"
    "ratio ''abc'' ''xyz'' = 0" "ratio ''abd'' ''xyz'' = 0" by code_simp+
  have d: "map description (products shop) = [''abc'', ''abd'']" by (simp add: shop_def)
  have h1: "\<exists>x\<in>set (map description (products shop)). cutoff \<le> ratio x ''ab''"
    unfolding d by (simp add: r cutoff_def)
  have h2: "\<not> (\<exists>x\<in>set (map description (products shop)). cutoff \<le> ratio x ''xyz'')"
    unfolding d by (simp add: r cutoff_def)
  have a: "cutoff \<le> ratio (correct_input shop ''ab'') ''ab''"
    using correct_input_closest[of shop "''ab''"] h1 by (simp only: if_True)
  have b: "correct_input shop ''xyz'' = ''xyz''"
    using correct_input_closest[of shop "''xyz''"] h2 by (simp only: if_False)
  show ?thesis using h1 h2 a b shop_correct by (simp add: r)
qed

end
